theory Spec2Isabelle
  imports Main "HOL-Library.AList" "HOL-Library.Sublist"
begin

section \<open>Path strings (posixpath)\<close>

text \<open>
  Paths are Python strings, modelled as \<open>string\<close>.  The functions below follow
  \<^verbatim>\<open>posixpath.join\<close>, \<^verbatim>\<open>basename\<close>, \<^verbatim>\<open>splitext\<close>,
  \<^verbatim>\<open>normpath\<close> and \<^verbatim>\<open>abspath\<close>.
\<close>

type_synonym path = string

definition sep :: char where
  "sep = CHR ''/''"

definition extsep :: char where
  "extsep = CHR ''.''"

text \<open>\<^verbatim>\<open>join(a, b)\<close>: an absolute \<open>b\<close> replaces \<open>a\<close>; otherwise one separator is inserted
  unless \<open>a\<close> is empty or already ends with one.\<close>

definition join :: "path \<Rightarrow> path \<Rightarrow> path" where
  "join a b =
     (if b \<noteq> [] \<and> hd b = sep then b
      else if a = [] \<or> last a = sep then a @ b
      else a @ sep # b)"

text \<open>\<^verbatim>\<open>basename(p) = p[p.rfind('/') + 1:]\<close>; \<open>dirpart\<close> is the rest, \<^verbatim>\<open>p[:p.rfind('/') + 1]\<close>.\<close>

definition basename :: "path \<Rightarrow> path" where
  "basename p = rev (takeWhile (\<lambda>c. c \<noteq> sep) (rev p))"

definition dirpart :: "path \<Rightarrow> path" where
  "dirpart p = rev (dropWhile (\<lambda>c. c \<noteq> sep) (rev p))"

text \<open>\<^verbatim>\<open>splitext\<close>: the extension starts at the last dot of the last component, provided
  a character other than a dot precedes it inside that component.\<close>

definition splitext :: "path \<Rightarrow> path \<times> path" where
  "splitext p =
     (let name = basename p;
          ext = rev (takeWhile (\<lambda>c. c \<noteq> extsep) (rev name));
          stem = take (length name - length ext - 1) name
      in if extsep \<in> set name \<and> (\<exists>c \<in> set stem. c \<noteq> extsep)
         then (dirpart p @ stem, extsep # ext)
         else (p, []))"

text \<open>\<^verbatim>\<open>str.split('/')\<close>.\<close>

fun split_sep :: "string \<Rightarrow> string list" where
  "split_sep [] = [[]]"
| "split_sep (c # cs) =
     (if c = sep then [] # split_sep cs
      else (case split_sep cs of w # ws \<Rightarrow> (c # w) # ws | [] \<Rightarrow> [[c]]))"

text \<open>One round of the component loop of \<^verbatim>\<open>normpath\<close>; \<open>init\<close> tells whether the path
  starts with a separator.\<close>

definition norm_step :: "bool \<Rightarrow> string \<Rightarrow> string list \<Rightarrow> string list" where
  "norm_step init cmp new_comps =
     (if cmp = [] \<or> cmp = ''.'' then new_comps
      else if cmp \<noteq> ''..'' \<or> (\<not> init \<and> new_comps = [])
              \<or> (new_comps \<noteq> [] \<and> last new_comps = ''..'')
           then new_comps @ [cmp]
      else if new_comps \<noteq> [] then butlast new_comps
      else new_comps)"

definition norm_comps :: "path \<Rightarrow> string list" where
  "norm_comps p = fold (norm_step (p \<noteq> [] \<and> hd p = sep)) (split_sep p) []"

fun intercalate :: "string list \<Rightarrow> string" where
  "intercalate [] = []"
| "intercalate [c] = c"
| "intercalate (c # d # cs) = c @ sep # intercalate (d # cs)"

definition initial_slashes :: "path \<Rightarrow> nat" where
  "initial_slashes p =
     (if take 1 p \<noteq> [sep] then 0
      else if take 2 p = [sep, sep] \<and> take 3 p \<noteq> [sep, sep, sep] then 2
      else 1)"

definition normpath :: "path \<Rightarrow> path" where
  "normpath p =
     (if p = [] then ''.''
      else let s = replicate (initial_slashes p) sep @ intercalate (norm_comps p)
           in if s = [] then ''.'' else s)"

text \<open>\<^verbatim>\<open>abspath\<close> joins a relative path to the working directory before normalising.\<close>

definition absolutize :: "path \<Rightarrow> path \<Rightarrow> path" where
  "absolutize wd p = (if p \<noteq> [] \<and> hd p = sep then p else join wd p)"

definition abspath :: "path \<Rightarrow> path \<Rightarrow> path" where
  "abspath wd p = normpath (absolutize wd p)"

text \<open>Decimal rendering of a non-negative integer (\<^verbatim>\<open>str(n)\<close>, \<^verbatim>\<open>f"{n}"\<close>).\<close>

definition digit :: "nat \<Rightarrow> char" where
  "digit d = char_of (48 + d)"

fun str_nat :: "nat \<Rightarrow> string" where
  "str_nat n = (if n < 10 then [digit n] else str_nat (n div 10) @ [digit (n mod 10)])"

declare str_nat.simps [simp del]

text \<open>Two-digit zero-padded rendering (\<^verbatim>\<open>strftime('%m')\<close>, \<^verbatim>\<open>strftime('%d')\<close>).\<close>

definition pad2 :: "nat \<Rightarrow> string" where
  "pad2 n = [digit (n div 10 mod 10), digit (n mod 10)]"


section \<open>The filesystem\<close>

text \<open>
  A filesystem without symbolic links.  Directory entries are keyed by the component list
  of the absolute normalised path; a regular file entry names an inode, so that two
  entries naming the same inode are hard links of one underlying file.  The root
  directory (key \<open>[]\<close>) always exists.  Entries below a directory listed in \<open>ro_dirs\<close>
  cannot be created or removed.  The modification date of an inode is kept as the local
  calendar time that \<^verbatim>\<open>datetime.fromtimestamp(os.path.getmtime(p))\<close> yields, \<open>None\<close>
  when that conversion raises.
\<close>

record datetime =
  year :: nat
  month :: nat
  day :: nat
  hour :: nat
  minute :: nat
  second :: nat

text \<open>A value of the decoded EXIF dictionary: a string, or another Python object of which
  only the truth value matters here.\<close>

datatype exif_value = Str string | NonStr bool

text \<open>What opening the image and reading its EXIF block gives: an exception, or the decoded
  tag dictionary (empty when the format has no EXIF).\<close>

datatype exif_read = ExifError | ExifTags "(string \<times> exif_value) list"

record inode =
  content :: string
  readable :: bool
  fault_at :: "nat option"
  exif :: exif_read
  mtime :: "datetime option"

datatype node = Dir | File nat

type_synonym key = "string list"

record fs =
  entries :: "(key \<times> node) list"
  inodes :: "nat \<Rightarrow> inode"
  cwd :: path
  ro_dirs :: "key list"
  dir_mtime :: "key \<Rightarrow> datetime option"

text \<open>The exceptions of the program.  Those of the first two lines belong to the
  \<^verbatim>\<open>OSError\<close> family (\<^verbatim>\<open>IOError\<close> is the same class), which is what the handlers
  \<^verbatim>\<open>except OSError\<close> and \<^verbatim>\<open>except (IOError, OSError)\<close> catch.  \<^verbatim>\<open>ValueError\<close> is raised by
  every call that hands the operating system a path with an embedded NUL character;
  \<^verbatim>\<open>IndexError\<close> and \<^verbatim>\<open>EOFError\<close> come from \<^verbatim>\<open>paths[0]\<close> and \<^verbatim>\<open>input()\<close>.\<close>

datatype error =
  FileNotFoundError | PermissionError | IsADirectoryError | NotADirectoryError
  | FileExistsError | EIO | EINVAL | ENOTEMPTY | ShutilError
  | ValueError | IndexError | EOFError

definition is_OSError :: "error \<Rightarrow> bool" where
  "is_OSError e = (e \<notin> set [ValueError, IndexError, EOFError])"

definition has_nul :: "path \<Rightarrow> bool" where
  "has_nul p = (CHR 0x00 \<in> set p)"

definition key_of :: "fs \<Rightarrow> path \<Rightarrow> key" where
  "key_of s p = norm_comps (absolutize (cwd s) p)"

definition node_at :: "fs \<Rightarrow> key \<Rightarrow> node option" where
  "node_at s k = (if k = [] then Some Dir else map_of (entries s) k)"

text \<open>Path lookup (\<^verbatim>\<open>stat\<close>).  The empty path names nothing, nor does a path with an
  embedded NUL character (the call raises \<^verbatim>\<open>ValueError\<close> before reaching the system, and
  \<^verbatim>\<open>os.path.exists\<close> and \<^verbatim>\<open>os.path.isdir\<close> answer \<^verbatim>\<open>False\<close>); a path whose last
  component is empty, \<open>.\<close> or \<open>..\<close> can only name a directory.\<close>

definition lookup :: "fs \<Rightarrow> path \<Rightarrow> node option" where
  "lookup s p =
     (if p = [] \<or> has_nul p then None
      else case node_at s (key_of s p) of
             Some (File i) \<Rightarrow>
               if basename p = [] \<or> basename p = ''.'' \<or> basename p = ''..'' then None
               else Some (File i)
           | r \<Rightarrow> r)"

definition exists :: "fs \<Rightarrow> path \<Rightarrow> bool" where
  "exists s p = (lookup s p \<noteq> None)"

definition isdir :: "fs \<Rightarrow> path \<Rightarrow> bool" where
  "isdir s p = (lookup s p = Some Dir)"





section \<open>Part 2: duplicate detection\<close>





text \<open>No byte of the file lies at or beyond a read fault.\<close>

definition fault_free :: "inode \<Rightarrow> bool" where
  "fault_free f = (case fault_at f of None \<Rightarrow> True | Some k \<Rightarrow> length (content f) \<le> k)"







section \<open>Part 4: the date of a photo\<close>

text \<open>
  \<^verbatim>\<open>datetime.strptime(date_str, '%Y:%m:%d %H:%M:%S')\<close>.  The format is compiled to the
  regular expression
  \<^verbatim>\<open>(\d\d\d\d):(1[0-2]|0[1-9]|[1-9]):(3[0-1]|[1-2]\d|0[1-9]|[1-9]| [1-9])\s+(2[0-3]|[0-1]\d|\d):([0-5]\d|\d):(6[0-1]|[0-5]\d|\d)\<close>,
  matched at the start of the string with backtracking; text left over after the match,
  and field values that are no calendar date and time, raise \<^verbatim>\<open>ValueError\<close> (here
  \<open>None\<close>).  A matcher returns every way of matching a prefix, in the order in which
  the regular expression tries them, each with the rest of the input.
\<close>

definition in_range :: "char \<Rightarrow> char \<Rightarrow> char \<Rightarrow> bool" where
  "in_range lo hi c = ((of_char lo :: nat) \<le> of_char c \<and> (of_char c :: nat) \<le> of_char hi)"

definition digit_val :: "char \<Rightarrow> nat" where
  "digit_val c = of_char c - 48"

text \<open>The characters that \<^verbatim>\<open>\s\<close> matches in a pattern on \<^verbatim>\<open>str\<close> (those for which
  \<^verbatim>\<open>str.isspace\<close> holds), among the code points of \<open>char\<close>: the ASCII white space, the
  separators \<open>0x1C\<close> to \<open>0x1F\<close>, and \<open>0x85\<close> and \<open>0xA0\<close>.\<close>

definition is_space :: "char \<Rightarrow> bool" where
  "is_space c = (c \<in> set [CHR '' '', CHR 0x09, CHR 0x0A, CHR 0x0B, CHR 0x0C, CHR 0x0D,
                            CHR 0x1C, CHR 0x1D, CHR 0x1E, CHR 0x1F, CHR 0x85, CHR 0xA0])"

definition two :: "char \<Rightarrow> char \<Rightarrow> char \<Rightarrow> char \<Rightarrow> string \<Rightarrow> (nat \<times> string) list" where
  "two a b c d s =
     (case s of
        x # y # r \<Rightarrow>
          if in_range a b x \<and> in_range c d y then [(10 * digit_val x + digit_val y, r)] else []
      | _ \<Rightarrow> [])"

definition one :: "char \<Rightarrow> char \<Rightarrow> string \<Rightarrow> (nat \<times> string) list" where
  "one a b s = (case s of x # r \<Rightarrow> if in_range a b x then [(digit_val x, r)] else [] | _ \<Rightarrow> [])"

definition lit :: "char \<Rightarrow> string \<Rightarrow> string list" where
  "lit c s = (case s of x # r \<Rightarrow> if x = c then [r] else [] | _ \<Rightarrow> [])"

definition re_Y :: "string \<Rightarrow> (nat \<times> string) list" where
  "re_Y s =
     (case s of
        a # b # c # d # r \<Rightarrow>
          if list_all (in_range CHR ''0'' CHR ''9'') [a, b, c, d]
          then [(1000 * digit_val a + 100 * digit_val b + 10 * digit_val c + digit_val d, r)]
          else []
      | _ \<Rightarrow> [])"

definition re_m :: "string \<Rightarrow> (nat \<times> string) list" where
  "re_m s = two CHR ''1'' CHR ''1'' CHR ''0'' CHR ''2'' s
          @ two CHR ''0'' CHR ''0'' CHR ''1'' CHR ''9'' s
          @ one CHR ''1'' CHR ''9'' s"

definition re_d :: "string \<Rightarrow> (nat \<times> string) list" where
  "re_d s = two CHR ''3'' CHR ''3'' CHR ''0'' CHR ''1'' s
          @ two CHR ''1'' CHR ''2'' CHR ''0'' CHR ''9'' s
          @ two CHR ''0'' CHR ''0'' CHR ''1'' CHR ''9'' s
          @ one CHR ''1'' CHR ''9'' s
          @ concat (map (one CHR ''1'' CHR ''9'') (lit CHR '' '' s))"

definition re_H :: "string \<Rightarrow> (nat \<times> string) list" where
  "re_H s = two CHR ''2'' CHR ''2'' CHR ''0'' CHR ''3'' s
          @ two CHR ''0'' CHR ''1'' CHR ''0'' CHR ''9'' s
          @ one CHR ''0'' CHR ''9'' s"

definition re_M :: "string \<Rightarrow> (nat \<times> string) list" where
  "re_M s = two CHR ''0'' CHR ''5'' CHR ''0'' CHR ''9'' s @ one CHR ''0'' CHR ''9'' s"

definition re_S :: "string \<Rightarrow> (nat \<times> string) list" where
  "re_S s = two CHR ''6'' CHR ''6'' CHR ''0'' CHR ''1'' s
          @ two CHR ''0'' CHR ''5'' CHR ''0'' CHR ''9'' s
          @ one CHR ''0'' CHR ''9'' s"

text \<open>\<^verbatim>\<open>\s+\<close> is greedy: the longest run of white space first.\<close>

definition re_spaces :: "string \<Rightarrow> string list" where
  "re_spaces s = map (\<lambda>k. drop k s) (rev [1 ..< Suc (length (takeWhile is_space s))])"

definition match_exif_format :: "string \<Rightarrow> ((nat \<times> nat \<times> nat \<times> nat \<times> nat \<times> nat) \<times> string) list" where
  "match_exif_format s =
     [((Y, m, d, H, M, S), r11).
        (Y, r1) \<leftarrow> re_Y s, r2 \<leftarrow> lit CHR '':'' r1,
        (m, r3) \<leftarrow> re_m r2, r4 \<leftarrow> lit CHR '':'' r3,
        (d, r5) \<leftarrow> re_d r4, r6 \<leftarrow> re_spaces r5,
        (H, r7) \<leftarrow> re_H r6, r8 \<leftarrow> lit CHR '':'' r7,
        (M, r9) \<leftarrow> re_M r8, r10 \<leftarrow> lit CHR '':'' r9,
        (S, r11) \<leftarrow> re_S r10]"

definition leap :: "nat \<Rightarrow> bool" where
  "leap y = (y mod 4 = 0 \<and> (if y mod 100 = 0 then y mod 400 = 0 else True))"

definition days_in_month :: "nat \<Rightarrow> nat \<Rightarrow> nat" where
  "days_in_month y m =
     (if m = 2 then (if leap y then 29 else 28)
      else if m \<in> set [4, 6, 9, 11] then 30 else 31)"

text \<open>The constructor of \<^verbatim>\<open>datetime\<close>; \<open>None\<close> when it raises \<^verbatim>\<open>ValueError\<close>.\<close>

definition make_datetime :: "nat \<Rightarrow> nat \<Rightarrow> nat \<Rightarrow> nat \<Rightarrow> nat \<Rightarrow> nat \<Rightarrow> datetime option" where
  "make_datetime Y m d H M S =
     (if 1 \<le> Y \<and> Y \<le> 9999 \<and> 1 \<le> m \<and> m \<le> 12 \<and> 1 \<le> d \<and> d \<le> days_in_month Y m
         \<and> H \<le> 23 \<and> M \<le> 59 \<and> S \<le> 59
      then Some \<lparr>year = Y, month = m, day = d, hour = H, minute = M, second = S\<rparr>
      else None)"

definition strptime_exif :: "string \<Rightarrow> datetime option" where
  "strptime_exif date_str =
     (case match_exif_format date_str of
        [] \<Rightarrow> None
      | ((Y, m, d, H, M, S), r) # _ \<Rightarrow> if r \<noteq> [] then None else make_datetime Y m d H M S)"

text \<open>Opening the image and decoding its EXIF block; every exception of that part of
  \<open>get_photo_date\<close> is caught by \<^verbatim>\<open>except Exception\<close>.\<close>

definition read_exif :: "fs \<Rightarrow> path \<Rightarrow> exif_read" where
  "read_exif s p =
     (case lookup s p of
        Some (File i) \<Rightarrow> if readable (inodes s i) then exif (inodes s i) else ExifError
      | _ \<Rightarrow> ExifError)"

definition truthy :: "exif_value \<Rightarrow> bool" where
  "truthy v = (case v of Str x \<Rightarrow> x \<noteq> [] | NonStr b \<Rightarrow> b)"

text \<open>\<^verbatim>\<open>a or b\<close> on two results of \<^verbatim>\<open>dict.get\<close>.\<close>

definition py_or :: "exif_value option \<Rightarrow> exif_value option \<Rightarrow> exif_value option" where
  "py_or a b = (case a of Some v \<Rightarrow> if truthy v then Some v else b | None \<Rightarrow> b)"

text \<open>\<^verbatim>\<open>datetime.fromtimestamp(os.path.getmtime(filepath))\<close>, \<open>None\<close> when it raises.\<close>

definition getmtime_date :: "fs \<Rightarrow> path \<Rightarrow> datetime option" where
  "getmtime_date s p =
     (case lookup s p of
        None \<Rightarrow> None
      | Some Dir \<Rightarrow> dir_mtime s (key_of s p)
      | Some (File i) \<Rightarrow> mtime (inodes s i))"

text \<open>The EXIF half of \<open>get_photo_date\<close>: \<open>None\<close> stands for falling through to the
  modification date.  A tag value that is not a string makes \<^verbatim>\<open>strptime\<close> raise
  \<^verbatim>\<open>TypeError\<close>, which the outer handler catches.\<close>

definition exif_date :: "fs \<Rightarrow> path \<Rightarrow> datetime option" where
  "exif_date s filepath =
     (case read_exif s filepath of
        ExifError \<Rightarrow> None
      | ExifTags exif_data \<Rightarrow>
          (case py_or (map_of exif_data ''DateTimeOriginal'')
                      (map_of exif_data ''DateTimeDigitized'') of
             None \<Rightarrow> None
           | Some date_str \<Rightarrow>
               if truthy date_str then
                 (case date_str of Str x \<Rightarrow> strptime_exif x | NonStr b \<Rightarrow> None)
               else None))"

definition get_photo_date :: "fs \<Rightarrow> path \<Rightarrow> datetime option" where
  "get_photo_date s filepath =
     (case exif_date s filepath of
        Some photo_date \<Rightarrow> Some photo_date
      | None \<Rightarrow> getmtime_date s filepath)"

section \<open>Suffixed names\<close>

text \<open>
  Both renaming loops try \<^verbatim>\<open>f"{base}_{counter}{ext}"\<close> for \<open>counter = 1, 2, \<dots>\<close>, where
  \<open>base\<close> and \<open>ext\<close> come from \<^verbatim>\<open>os.path.splitext\<close> of the first candidate.  The loops
  end because the candidates are pairwise different entries and the filesystem has
  finitely many; the lemmas of this section establish that, for the termination proofs.
\<close>

definition suffixed :: "path \<Rightarrow> nat \<Rightarrow> path" where
  "suffixed p counter = (case splitext p of (base, ext) \<Rightarrow> base @ ''_'' @ str_nat counter @ ext)"

subsection \<open>Decimal numerals\<close>

text \<open>\<open>str_nat\<close> is injective: it has a left inverse.\<close>

definition nat_of_digits :: "string \<Rightarrow> nat" where
  "nat_of_digits ds = foldl (\<lambda>a c. 10 * a + digit_val c) 0 ds"

lemma of_char_digit: "d < 10 \<Longrightarrow> (of_char (digit d) :: nat) = 48 + d"
  unfolding digit_def by (subst of_char_of) simp

lemma digit_val_digit: "d < 10 \<Longrightarrow> digit_val (digit d) = d"
  by (simp add: digit_val_def of_char_digit)

lemma nat_of_digits_snoc: "nat_of_digits (ds @ [c]) = 10 * nat_of_digits ds + digit_val c"
  by (simp add: nat_of_digits_def)

lemma nat_of_digits_str_nat: "nat_of_digits (str_nat n) = n"
proof (induction n rule: str_nat.induct)
  case (1 n)
  show ?case
  proof (cases "n < 10")
    case True
    then show ?thesis
      by (subst str_nat.simps) (simp add: nat_of_digits_def digit_val_digit)
  next
    case False
    with 1 show ?thesis
      by (subst str_nat.simps) (simp add: nat_of_digits_snoc digit_val_digit)
  qed
qed

lemma str_nat_inj: "str_nat n = str_nat m \<Longrightarrow> n = m"
  by (metis nat_of_digits_str_nat)

lemma digit_not_sep: "d < 10 \<Longrightarrow> digit d \<noteq> sep"
proof
  assume "d < 10" and "digit d = sep"
  then have "(of_char sep :: nat) = 48 + d"
    using of_char_digit[of d] by simp
  then show False by (simp add: sep_def)
qed

lemma sep_notin_str_nat: "sep \<notin> set (str_nat n)"
proof (induction n rule: str_nat.induct)
  case (1 n)
  show ?case
  proof (cases "n < 10")
    case True
    then show ?thesis by (subst str_nat.simps) (simp add: digit_not_sep[THEN not_sym])
  next
    case False
    with 1 show ?thesis by (subst str_nat.simps) (simp add: digit_not_sep[THEN not_sym])
  qed
qed

subsection \<open>Components of a path that ends with a plain name\<close>

definition proper :: "string \<Rightarrow> bool" where
  "proper n = (n \<noteq> [] \<and> sep \<notin> set n \<and> n \<noteq> ''.'' \<and> n \<noteq> ''..'')"

lemma split_sep_nonempty: "split_sep q \<noteq> []"
  by (induction q) (auto split: list.splits)

lemma split_sep_append:
  "sep \<notin> set t \<Longrightarrow> split_sep (q @ t) = butlast (split_sep q) @ [last (split_sep q) @ t]"
proof (induction q)
  case Nil
  then show ?case by (induction t) (auto split: list.splits)
next
  case (Cons c q)
  then show ?case
    using split_sep_nonempty[of q] split_sep_nonempty[of "q @ t"]
    by (auto split: list.splits simp: butlast_append)
qed

lemma norm_step_proper: "c \<noteq> [] \<Longrightarrow> c \<noteq> ''.'' \<Longrightarrow> c \<noteq> ''..'' \<Longrightarrow> norm_step i c acc = acc @ [c]"
  by (simp add: norm_step_def)

definition dir_comps :: "path \<Rightarrow> string list" where
  "dir_comps q = fold (norm_step (q \<noteq> [] \<and> hd q = sep)) (butlast (split_sep q)) []"

lemma norm_comps_append:
  assumes "sep \<notin> set t" "t \<noteq> []"
    and "last (split_sep q) @ t \<noteq> ''.''" "last (split_sep q) @ t \<noteq> ''..''"
  shows "norm_comps (q @ t) = dir_comps q @ [last (split_sep q) @ t]"
proof -
  have flag: "(q @ t \<noteq> [] \<and> hd (q @ t) = sep) = (q \<noteq> [] \<and> hd q = sep)"
    using assms(1,2) by (cases q; cases t) auto
  show ?thesis
    unfolding norm_comps_def flag split_sep_append[OF assms(1)] dir_comps_def
    using assms by (simp add: norm_step_proper)
qed

lemma split_sep_snoc_sep: "split_sep (q @ [sep]) = split_sep q @ [[]]"
proof (induction q)
  case Nil
  then show ?case by simp
next
  case (Cons c q)
  obtain w ws where "split_sep q = w # ws"
    using split_sep_nonempty[of q] by (cases "split_sep q") auto
  with Cons show ?case by simp
qed

lemma dir_comps_ends_sep:
  assumes "q = [] \<or> last q = sep"
  shows "dir_comps q = norm_comps q \<and> last (split_sep q) = []"
proof (cases "q = []")
  case True
  then show ?thesis by (simp add: dir_comps_def norm_comps_def norm_step_def)
next
  case False
  with assms obtain q0 where q: "q = q0 @ [sep]"
    by (metis append_butlast_last_id)
  show ?thesis
    unfolding q dir_comps_def norm_comps_def split_sep_snoc_sep
    by (simp add: norm_step_def)
qed

lemma norm_comps_dir_name:
  assumes "q = [] \<or> last q = sep" "proper n"
  shows "norm_comps (q @ n) = norm_comps q @ [n]"
  using norm_comps_append[of n q] dir_comps_ends_sep[OF assms(1)] assms(2)
  by (simp add: proper_def)

lemma norm_comps_snoc_sep:
  assumes "q \<noteq> []"
  shows "norm_comps (q @ [sep]) = norm_comps q"
proof -
  have flag: "(q @ [sep] \<noteq> [] \<and> hd (q @ [sep]) = sep) = (q \<noteq> [] \<and> hd q = sep)"
    using assms by (cases q) auto
  show ?thesis
    unfolding norm_comps_def flag split_sep_snoc_sep by (simp add: norm_step_def)
qed

text \<open>The string that \<open>join d\<close> puts before a relative name.\<close>

definition dir_prefix :: "path \<Rightarrow> path" where
  "dir_prefix d = (if d = [] \<or> last d = sep then d else d @ [sep])"

lemma join_name: "n \<noteq> [] \<Longrightarrow> hd n \<noteq> sep \<Longrightarrow> join d n = dir_prefix d @ n"
  by (simp add: join_def dir_prefix_def)

lemma join_empty: "join d [] = dir_prefix d"
  by (simp add: join_def dir_prefix_def)

lemma dir_prefix_ends: "dir_prefix d = [] \<or> last (dir_prefix d) = sep"
  by (simp add: dir_prefix_def)

lemma proper_hd: "proper n \<Longrightarrow> n \<noteq> [] \<and> hd n \<noteq> sep"
  by (cases n) (auto simp: proper_def)

lemma absolutize_append:
  "t \<noteq> [] \<Longrightarrow> hd t \<noteq> sep \<Longrightarrow> absolutize wd (b @ t) = absolutize wd b @ t"
  by (cases b) (auto simp: absolutize_def join_def)

lemma absolutize_append_nonempty:
  "b \<noteq> [] \<Longrightarrow> absolutize wd (b @ t) = absolutize wd b @ t"
  by (cases b) (auto simp: absolutize_def join_def)

lemma absolutize_ends:
  "d = [] \<or> last d = sep \<Longrightarrow> absolutize wd d = [] \<or> last (absolutize wd d) = sep"
  by (auto simp: absolutize_def join_def)

lemma norm_comps_absolutize_dir_prefix:
  "norm_comps (absolutize wd (dir_prefix d)) = norm_comps (absolutize wd d)"
proof (cases "d = [] \<or> last d = sep")
  case True
  then show ?thesis by (simp add: dir_prefix_def)
next
  case False
  then have "absolutize wd (d @ [sep]) = absolutize wd d @ [sep]"
    by (intro absolutize_append_nonempty) auto
  moreover have "absolutize wd d \<noteq> []"
    using False by (cases d) (auto simp: absolutize_def join_def)
  ultimately show ?thesis
    using False by (simp add: dir_prefix_def norm_comps_snoc_sep)
qed

lemma key_of_join:
  assumes "proper n"
  shows "key_of s (join d n) = key_of s d @ [n]"
proof -
  from assms have n: "n \<noteq> []" "hd n \<noteq> sep" using proper_hd by auto
  have "absolutize (cwd s) (dir_prefix d @ n) = absolutize (cwd s) (dir_prefix d) @ n"
    using n by (rule absolutize_append)
  moreover have "absolutize (cwd s) (dir_prefix d) = [] \<or> last (absolutize (cwd s) (dir_prefix d)) = sep"
    using dir_prefix_ends by (rule absolutize_ends)
  ultimately show ?thesis
    using assms n by (simp add: key_of_def join_name norm_comps_dir_name norm_comps_absolutize_dir_prefix)
qed


subsection \<open>Suffixed names\<close>

lemma dirpart_basename: "dirpart p @ basename p = p"
  unfolding dirpart_def basename_def
  by (metis rev_append rev_rev_ident takeWhile_dropWhile_id)

lemma sep_notin_basename: "sep \<notin> set (basename p)"
proof
  assume "sep \<in> set (basename p)"
  then have "sep \<in> set (takeWhile (\<lambda>c. c \<noteq> sep) (rev p))"
    by (simp add: basename_def)
  then show False
    by (auto dest: set_takeWhileD)
qed

lemma split_last_dot:
  assumes "extsep \<in> set name"
  shows "take (length name - length (takeWhile (\<lambda>c. c \<noteq> extsep) (rev name)) - 1) name
           @ extsep # rev (takeWhile (\<lambda>c. c \<noteq> extsep) (rev name)) = name"
proof -
  let ?tw = "takeWhile (\<lambda>c. c \<noteq> extsep) (rev name)"
  let ?dw = "dropWhile (\<lambda>c. c \<noteq> extsep) (rev name)"
  from assms have "?dw \<noteq> []" by (auto simp: dropWhile_eq_Nil_conv)
  then obtain r where dw: "?dw = extsep # r"
    using hd_dropWhile[of "\<lambda>c. c \<noteq> extsep" "rev name"] by (cases ?dw) auto
  have "rev name = ?tw @ extsep # r"
    using takeWhile_dropWhile_id[of "\<lambda>c. c \<noteq> extsep" "rev name"] dw by simp
  then have "rev (rev name) = rev (?tw @ extsep # r)"
    by (rule arg_cong)
  then have name: "name = rev r @ extsep # rev ?tw"
    by simp
  have "length name - length ?tw - 1 = length r"
    by (subst name) simp
  moreover have "take (length r) name = rev r"
    by (subst name) simp
  ultimately show ?thesis
    using name by simp
qed

lemma splitext_cases:
  "splitext p = (p, []) \<or>
   (\<exists>stem ext. splitext p = (dirpart p @ stem, extsep # ext) \<and> stem @ extsep # ext = basename p)"
proof -
  define name where "name = basename p"
  define ext where "ext = rev (takeWhile (\<lambda>c. c \<noteq> extsep) (rev name))"
  define stem where "stem = take (length name - length ext - 1) name"
  have sp: "splitext p = (if extsep \<in> set name \<and> (\<exists>c \<in> set stem. c \<noteq> extsep)
                          then (dirpart p @ stem, extsep # ext) else (p, []))"
    unfolding splitext_def name_def ext_def stem_def Let_def ..
  show ?thesis
  proof (cases "extsep \<in> set name \<and> (\<exists>c \<in> set stem. c \<noteq> extsep)")
    case False
    with sp show ?thesis by simp
  next
    case True
    then have "stem @ extsep # ext = name"
      unfolding stem_def ext_def using split_last_dot[of name] by simp
    with sp True show ?thesis
      unfolding name_def by (intro disjI2 exI[of _ stem] exI[of _ ext]) simp
  qed
qed

lemma splitext_parts:
  assumes "splitext p = (b, e)"
  shows "b @ e = p \<and> sep \<notin> set e"
proof -
  from splitext_cases[of p] show ?thesis
  proof
    assume "splitext p = (p, [])"
    with assms show ?thesis by simp
  next
    assume "\<exists>stem ext. splitext p = (dirpart p @ stem, extsep # ext) \<and> stem @ extsep # ext = basename p"
    then obtain stem ext where se: "splitext p = (dirpart p @ stem, extsep # ext)"
      and nm: "stem @ extsep # ext = basename p" by blast
    from se assms have be: "b = dirpart p @ stem" "e = extsep # ext" by simp_all
    have "set e \<subseteq> set (basename p)"
      unfolding be nm[symmetric] by auto
    then have "sep \<notin> set e"
      using sep_notin_basename[of p] by blast
    moreover have "b @ e = p"
      unfolding be using nm dirpart_basename[of p] by simp
    ultimately show ?thesis by simp
  qed
qed

text \<open>The text appended after the base: an underscore, the counter, the extension.\<close>

definition tail_of :: "nat \<Rightarrow> string \<Rightarrow> string" where
  "tail_of k e = ''_'' @ str_nat k @ e"

lemma tail_of_plain:
  assumes "sep \<notin> set e"
  shows "sep \<notin> set (tail_of k e)" "tail_of k e \<noteq> []" "hd (tail_of k e) \<noteq> sep"
        "l @ tail_of k e \<noteq> ''.''" "l @ tail_of k e \<noteq> ''..''"
proof -
  show "sep \<notin> set (tail_of k e)"
    using assms sep_notin_str_nat by (simp add: tail_of_def sep_def)
  show "tail_of k e \<noteq> []" "hd (tail_of k e) \<noteq> sep"
    by (simp_all add: tail_of_def sep_def)
  have u: "CHR ''_'' \<in> set (l @ tail_of k e)"
    by (simp add: tail_of_def)
  show "l @ tail_of k e \<noteq> ''.''"
  proof
    assume "l @ tail_of k e = ''.''"
    with u have "CHR ''_'' \<in> set ''.''" by (simp only:)
    then show False by simp
  qed
  show "l @ tail_of k e \<noteq> ''..''"
  proof
    assume "l @ tail_of k e = ''..''"
    with u have "CHR ''_'' \<in> set ''..''" by (simp only:)
    then show False by simp
  qed
qed

lemma suffixed_tail: "splitext p = (b, e) \<Longrightarrow> suffixed p k = b @ tail_of k e"
  by (simp add: suffixed_def tail_of_def)

lemma key_of_suffixed:
  assumes "splitext p = (b, e)"
  shows "key_of s (suffixed p k)
           = dir_comps (absolutize (cwd s) b) @ [last (split_sep (absolutize (cwd s) b)) @ tail_of k e]"
proof -
  from assms have e: "sep \<notin> set e" using splitext_parts by blast
  have "absolutize (cwd s) (b @ tail_of k e) = absolutize (cwd s) b @ tail_of k e"
    using tail_of_plain(2,3)[OF e] by (rule absolutize_append)
  then show ?thesis
    using tail_of_plain[OF e] assms
    by (simp add: key_of_def suffixed_tail norm_comps_append)
qed

lemma key_of_suffixed_inj:
  assumes "key_of s (suffixed p k) = key_of s (suffixed p j)"
  shows "k = j"
proof -
  obtain b e where be: "splitext p = (b, e)" by (cases "splitext p")
  from assms have "tail_of k e = tail_of j e"
    by (simp add: key_of_suffixed[OF be])
  then show ?thesis
    by (simp add: tail_of_def str_nat_inj)
qed

lemma exists_key: "exists s p \<Longrightarrow> node_at s (key_of s p) \<noteq> None"
  by (auto simp: exists_def lookup_def split: if_splits option.splits node.splits)

lemma finite_existing_suffixes: "finite {k. exists s (suffixed p k)}"
proof -
  let ?K = "insert [] (fst ` set (entries s))"
  have "key_of s (suffixed p k) \<in> ?K" if "exists s (suffixed p k)" for k
  proof (cases "key_of s (suffixed p k) = []")
    case True
    then show ?thesis by simp
  next
    case False
    with exists_key[OF that] obtain y where "map_of (entries s) (key_of s (suffixed p k)) = Some y"
      by (auto simp: node_at_def)
    then have "(key_of s (suffixed p k), y) \<in> set (entries s)"
      by (rule map_of_SomeD)
    then have "fst (key_of s (suffixed p k), y) \<in> fst ` set (entries s)"
      by (rule imageI)
    then show ?thesis by simp
  qed
  then have "{k. exists s (suffixed p k)} \<subseteq> (\<lambda>k. key_of s (suffixed p k)) -` ?K"
    by auto
  moreover have "inj (\<lambda>k. key_of s (suffixed p k))"
    by (rule injI) (rule key_of_suffixed_inj)
  then have "finite ((\<lambda>k. key_of s (suffixed p k)) -` ?K)"
    by (intro finite_vimageI) simp_all
  ultimately show ?thesis by (rule finite_subset)
qed

text \<open>The number of existing suffixed names from \<open>counter\<close> on, plus one while the current
  candidate exists: it decreases at every round of the renaming loops.\<close>

definition names_left :: "fs \<Rightarrow> path \<Rightarrow> nat \<Rightarrow> path \<Rightarrow> nat" where
  "names_left s p counter new_path =
     card {k. counter \<le> k \<and> exists s (suffixed p k)} + (if exists s new_path then 1 else 0)"

lemma names_left_decreases:
  assumes "exists s new_path"
  shows "names_left s p (Suc counter) (suffixed p counter) < names_left s p counter new_path"
proof -
  let ?A = "{k. Suc counter \<le> k \<and> exists s (suffixed p k)}"
  let ?B = "{k. counter \<le> k \<and> exists s (suffixed p k)}"
  have fin: "finite ?B" "finite ?A"
    using finite_existing_suffixes[of s p] by (auto intro: finite_subset)
  have "card ?A + (if exists s (suffixed p counter) then 1 else 0) = card ?B"
  proof (cases "exists s (suffixed p counter)")
    case True
    then have "?B = insert counter ?A" by (auto simp: le_Suc_eq)
    moreover have "counter \<notin> ?A" by simp
    ultimately show ?thesis using fin True by simp
  next
    case False
    then have "?B = ?A"
      by (auto simp: Suc_le_eq less_le)
    with False show ?thesis by simp
  qed
  with assms show ?thesis by (simp add: names_left_def)
qed

function free_path :: "fs \<Rightarrow> path \<Rightarrow> nat \<Rightarrow> path \<Rightarrow> path" where
  "free_path s p counter new_path =
     (if exists s new_path then free_path s p (counter + 1) (suffixed p counter) else new_path)"
  by pat_completeness auto
termination
  by (relation "measure (\<lambda>(s, p, counter, new_path). names_left s p counter new_path)")
     (simp_all add: names_left_decreases)

section \<open>Operations that change the filesystem\<close>

definition parent :: "key \<Rightarrow> key" where
  "parent k = butlast k"

text \<open>The last component of the path, as written, can name a regular file.\<close>

definition plain_name :: "path \<Rightarrow> bool" where
  "plain_name p = (basename p \<noteq> [] \<and> basename p \<noteq> ''.'' \<and> basename p \<noteq> ''..'')"

text \<open>\<^verbatim>\<open>os.path.samefile\<close>: \<^verbatim>\<open>os.stat\<close> of the first path, then of the second, either of
  which may raise; two regular files are the same when they name one inode, two
  directories when they are one entry.\<close>

definition samefile :: "fs \<Rightarrow> path \<Rightarrow> path \<Rightarrow> error + bool" where
  "samefile s p q =
     (case lookup s p of
        None \<Rightarrow> Inl (if has_nul p then ValueError else FileNotFoundError)
      | Some np \<Rightarrow>
          (case lookup s q of
             None \<Rightarrow> Inl (if has_nul q then ValueError else FileNotFoundError)
           | Some nq \<Rightarrow>
               Inr (case np of
                      File i \<Rightarrow> nq = File i
                    | Dir \<Rightarrow> nq = Dir \<and> key_of s p = key_of s q)))"

text \<open>\<^verbatim>\<open>os.makedirs\<close>: the directories of the path are visited from the root and created
  where missing; a missing component with an embedded NUL character makes \<^verbatim>\<open>mkdir\<close> raise
  \<^verbatim>\<open>ValueError\<close> (no directory entry has such a name).  Directories created before a
  failure stay.\<close>

fun mkdir_chain :: "fs \<Rightarrow> key \<Rightarrow> string list \<Rightarrow> error option \<times> fs" where
  "mkdir_chain s pre [] = (None, s)"
| "mkdir_chain s pre (c # cs) =
     (case node_at s (pre @ [c]) of
        Some Dir \<Rightarrow> mkdir_chain s (pre @ [c]) cs
      | Some (File i) \<Rightarrow> (Some (if cs = [] then FileExistsError else NotADirectoryError), s)
      | None \<Rightarrow>
          if has_nul c then (Some ValueError, s)
          else if pre \<in> set (ro_dirs s) then (Some PermissionError, s)
          else mkdir_chain (s\<lparr>entries := AList.update (pre @ [c]) Dir (entries s)\<rparr>) (pre @ [c]) cs)"

definition makedirs :: "fs \<Rightarrow> path \<Rightarrow> bool \<Rightarrow> error option \<times> fs" where
  "makedirs s name exist_ok =
     (if name = [] then (Some FileNotFoundError, s)
      else if \<not> exist_ok \<and> node_at s (key_of s name) = Some Dir then (Some FileExistsError, s)
      else mkdir_chain s [] (key_of s name))"

text \<open>\<^verbatim>\<open>os.remove\<close>.\<close>

definition remove :: "fs \<Rightarrow> path \<Rightarrow> error option \<times> fs" where
  "remove s p =
     (case lookup s p of
        None \<Rightarrow> (Some (if has_nul p then ValueError else FileNotFoundError), s)
      | Some Dir \<Rightarrow> (Some IsADirectoryError, s)
      | Some (File i) \<Rightarrow>
          if parent (key_of s p) \<in> set (ro_dirs s) then (Some PermissionError, s)
          else (None, s\<lparr>entries := AList.delete (key_of s p) (entries s)\<rparr>))"

definition has_children :: "fs \<Rightarrow> key \<Rightarrow> bool" where
  "has_children s k = list_ex (\<lambda>(k', n). strict_prefix k k') (entries s)"

text \<open>The system call \<^verbatim>\<open>rename\<close> (POSIX).  A regular file replaces an existing regular
  file; renaming one name of a file to another name of the same file does nothing and
  succeeds; a directory moves with everything below it.\<close>

definition sys_rename :: "fs \<Rightarrow> path \<Rightarrow> path \<Rightarrow> error option \<times> fs" where
  "sys_rename s src dst =
     (let ks = key_of s src; kd = key_of s dst;
          denied = (parent ks \<in> set (ro_dirs s) \<or> parent kd \<in> set (ro_dirs s))
      in case lookup s src of
           None \<Rightarrow> (Some FileNotFoundError, s)
         | Some (File i) \<Rightarrow>
             (case lookup s dst of
                Some (File j) \<Rightarrow>
                  if i = j then (None, s)
                  else if denied then (Some PermissionError, s)
                  else (None, s\<lparr>entries := AList.update kd (File i) (AList.delete ks (entries s))\<rparr>)
              | Some Dir \<Rightarrow> (Some IsADirectoryError, s)
              | None \<Rightarrow>
                  if dst = [] \<or> node_at s (parent kd) = None then (Some FileNotFoundError, s)
                  else if node_at s (parent kd) \<noteq> Some Dir \<or> node_at s kd \<noteq> None \<or> \<not> plain_name dst
                  then (Some NotADirectoryError, s)
                  else if denied then (Some PermissionError, s)
                  else (None, s\<lparr>entries := AList.update kd (File i) (AList.delete ks (entries s))\<rparr>))
         | Some Dir \<Rightarrow>
             if dst = [] then (Some FileNotFoundError, s)
             else if ks = kd then (None, s)
             else if prefix ks kd then (Some EINVAL, s)
             else if node_at s (parent kd) = None then (Some FileNotFoundError, s)
             else if node_at s (parent kd) \<noteq> Some Dir
                     \<or> (case node_at s kd of Some (File j) \<Rightarrow> True | _ \<Rightarrow> False)
             then (Some NotADirectoryError, s)
             else if has_children s kd then (Some ENOTEMPTY, s)
             else if denied then (Some PermissionError, s)
             else (None, s\<lparr>entries :=
                     map (\<lambda>(k, n). if prefix ks k then (kd @ drop (length ks) k, n) else (k, n))
                         (AList.delete kd (entries s))\<rparr>))"

text \<open>\<^verbatim>\<open>os.rename\<close>: both paths are converted before the system call is made.\<close>

definition rename :: "fs \<Rightarrow> path \<Rightarrow> path \<Rightarrow> error option \<times> fs" where
  "rename s src dst =
     (if has_nul src \<or> has_nul dst then (Some ValueError, s) else sys_rename s src dst)"

text \<open>An inode number that no entry uses.\<close>

definition fresh_inode :: "fs \<Rightarrow> nat" where
  "fresh_inode s = Suc (fold max (map (\<lambda>(k, n). case n of File i \<Rightarrow> i | Dir \<Rightarrow> 0) (entries s)) 0)"

text \<open>What a copy of an inode holds: everything when the source reads without fault,
  otherwise the bytes before the fault, as a truncated file of unknown metadata.\<close>

definition copied :: "inode \<Rightarrow> inode" where
  "copied f =
     (case fault_at f of
        None \<Rightarrow> f
      | Some k \<Rightarrow>
          if length (content f) \<le> k then f
          else \<lparr>content = take k (content f), readable = True, fault_at = None,
                exif = ExifError, mtime = None\<rparr>)"

text \<open>\<^verbatim>\<open>shutil.copy2\<close> of the regular file with inode \<open>i\<close>, written at \<open>src\<close>, to \<open>dst\<close>.\<close>

definition copy2 :: "fs \<Rightarrow> nat \<Rightarrow> path \<Rightarrow> error option \<times> fs" where
  "copy2 s i dst =
     (let kd = key_of s dst; f = inodes s i;
          err = (if fault_free f then None else Some EIO)
      in if \<not> readable f then (Some PermissionError, s)
         else case lookup s dst of
                Some (File j) \<Rightarrow>
                  if i = j then (Some ShutilError, s)
                  else (err, s\<lparr>inodes := (inodes s)(j := copied f)\<rparr>)
              | Some Dir \<Rightarrow> (Some IsADirectoryError, s)
              | None \<Rightarrow>
                  if has_nul dst then (Some ValueError, s)
                  else if dst = [] \<or> node_at s (parent kd) = None then (Some FileNotFoundError, s)
                  else if node_at s (parent kd) \<noteq> Some Dir \<or> node_at s kd \<noteq> None \<or> \<not> plain_name dst
                  then (Some NotADirectoryError, s)
                  else if parent kd \<in> set (ro_dirs s) then (Some PermissionError, s)
                  else (err, s\<lparr>entries := AList.update kd (File (fresh_inode s)) (entries s),
                               inodes := (inodes s)(fresh_inode s := copied f)\<rparr>))"

text \<open>The \<^verbatim>\<open>try: os.rename ... except OSError:\<close> part of \<^verbatim>\<open>shutil.move\<close>: when the rename
  fails with an \<^verbatim>\<open>OSError\<close>, a regular file is copied and then unlinked.  For a directory
  the copy of the tree is left out of the model, and the error of the rename is reported.\<close>

definition rename_or_copy :: "fs \<Rightarrow> path \<Rightarrow> path \<Rightarrow> error option \<times> fs" where
  "rename_or_copy s src real_dst =
     (case rename s src real_dst of
        (None, s') \<Rightarrow> (None, s')
      | (Some e, s') \<Rightarrow>
          if \<not> is_OSError e then (Some e, s')
          else (case lookup s src of
                  Some (File i) \<Rightarrow>
                    (case copy2 s i real_dst of
                       (None, s'') \<Rightarrow> remove s'' src
                     | (Some e', s'') \<Rightarrow> (Some e', s''))
                | _ \<Rightarrow> (Some e, s)))"

definition rstrip_sep :: "path \<Rightarrow> path" where
  "rstrip_sep p = rev (dropWhile (\<lambda>c. c = sep) (rev p))"

text \<open>\<^verbatim>\<open>shutil.move(src, dst)\<close>.  Its test \<^verbatim>\<open>_samefile\<close> turns an \<^verbatim>\<open>OSError\<close> of
  \<^verbatim>\<open>os.path.samefile\<close> into \<^verbatim>\<open>False\<close>.\<close>

definition shutil_move :: "fs \<Rightarrow> path \<Rightarrow> path \<Rightarrow> error option \<times> fs" where
  "shutil_move s src dst =
     (if isdir s dst then
        (case samefile s src dst of
           Inl e \<Rightarrow>
             if \<not> is_OSError e then (Some e, s)
             else let real_dst = join dst (basename (rstrip_sep src))
                  in if exists s real_dst then (Some ShutilError, s)
                     else rename_or_copy s src real_dst
         | Inr same \<Rightarrow>
             if same then rename s src dst
             else let real_dst = join dst (basename (rstrip_sep src))
                  in if exists s real_dst then (Some ShutilError, s)
                     else rename_or_copy s src real_dst)
      else rename_or_copy s src dst)"


section \<open>Part 3: handling the duplicates\<close>

text \<open>
  The state of a run of \<open>handle_duplicates\<close>: the filesystem, the lines still to be read
  from standard input by \<^verbatim>\<open>input()\<close>, the two counters, the exception that ended the
  run if one did (one that no handler of the function catches), and the messages printed
  about the files acted upon.
\<close>

datatype dup_msg =
  Gone path | Moved path path | Move_error path error
  | Deleted path | Delete_error path error | Cancelled | Unrecognized string

record dup_run =
  dup_fs :: fs
  stdin :: "string list"
  moved_count :: nat
  deleted_count :: nat
  raised :: "error option"
  messages :: "dup_msg list"

text \<open>The loop \<^verbatim>\<open>while os.path.exists(new_path)\<close> of the move branch is \<open>free_path\<close>.\<close>

fun move_dups :: "path \<Rightarrow> path list \<Rightarrow> dup_run \<Rightarrow> dup_run" where
  "move_dups target_folder [] r = r"
| "move_dups target_folder (dup_path # rest) r =
     (if \<not> exists (dup_fs r) dup_path
      then move_dups target_folder rest (r\<lparr>messages := messages r @ [Gone dup_path]\<rparr>)
      else let dup_filename = basename dup_path;
               new_path = join target_folder dup_filename;
               new_path = free_path (dup_fs r) new_path 1 new_path
           in case shutil_move (dup_fs r) dup_path new_path of
                (None, s') \<Rightarrow>
                  move_dups target_folder rest
                    (r\<lparr>dup_fs := s', moved_count := moved_count r + 1,
                       messages := messages r @ [Moved dup_path new_path]\<rparr>)
              | (Some e, s') \<Rightarrow>
                  if is_OSError e then
                    move_dups target_folder rest
                      (r\<lparr>dup_fs := s', messages := messages r @ [Move_error dup_path e]\<rparr>)
                  else r\<lparr>dup_fs := s', raised := Some e\<rparr>)"

fun delete_dups :: "path list \<Rightarrow> dup_run \<Rightarrow> dup_run" where
  "delete_dups [] r = r"
| "delete_dups (dup_path # rest) r =
     (if \<not> exists (dup_fs r) dup_path
      then delete_dups rest (r\<lparr>messages := messages r @ [Gone dup_path]\<rparr>)
      else case remove (dup_fs r) dup_path of
             (None, s') \<Rightarrow>
               delete_dups rest
                 (r\<lparr>dup_fs := s', deleted_count := deleted_count r + 1,
                    messages := messages r @ [Deleted dup_path]\<rparr>)
           | (Some e, s') \<Rightarrow>
               if is_OSError e then
                 delete_dups rest (r\<lparr>dup_fs := s', messages := messages r @ [Delete_error dup_path e]\<rparr>)
               else r\<lparr>dup_fs := s', raised := Some e\<rparr>)"

text \<open>\<^verbatim>\<open>str.lower\<close> on ASCII letters.\<close>

definition lower :: "string \<Rightarrow> string" where
  "lower x = map (\<lambda>c. if in_range CHR ''A'' CHR ''Z'' c then char_of (of_char c + (32::nat)) else c) x"

text \<open>The body of the loop over the groups.  \<^verbatim>\<open>paths[0]\<close> raises \<^verbatim>\<open>IndexError\<close> on an empty
  list, and \<^verbatim>\<open>input()\<close> raises \<^verbatim>\<open>EOFError\<close> when standard input is exhausted.\<close>

definition handle_group :: "string \<Rightarrow> path \<Rightarrow> path list \<Rightarrow> dup_run \<Rightarrow> dup_run" where
  "handle_group action target_folder paths r =
     (case paths of
        [] \<Rightarrow> r\<lparr>raised := Some IndexError\<rparr>
      | original # duplicates_to_process \<Rightarrow>
          if duplicates_to_process = [] then r
          else if action = ''list'' then r
          else if action = ''move'' then move_dups target_folder duplicates_to_process r
          else if action = ''delete'' then
            (case stdin r of
               [] \<Rightarrow> r\<lparr>raised := Some EOFError\<rparr>
             | line # rest \<Rightarrow>
                 if lower line = ''o'' then delete_dups duplicates_to_process (r\<lparr>stdin := rest\<rparr>)
                 else r\<lparr>stdin := rest, messages := messages r @ [Cancelled]\<rparr>)
          else r\<lparr>messages := messages r @ [Unrecognized action]\<rparr>)"

fun handle_groups :: "string \<Rightarrow> path \<Rightarrow> (string \<times> path list) list \<Rightarrow> dup_run \<Rightarrow> dup_run" where
  "handle_groups action target_folder [] r = r"
| "handle_groups action target_folder ((hash_val, paths) # rest) r =
     (let r' = handle_group action target_folder paths r
      in if raised r' \<noteq> None then r' else handle_groups action target_folder rest r')"

definition handle_duplicates ::
  "fs \<Rightarrow> string list \<Rightarrow> (string \<times> path list) list \<Rightarrow> string \<Rightarrow> path \<Rightarrow> dup_run" where
  "handle_duplicates s inp duplicate_groups action target_folder =
     (let r = \<lparr>dup_fs = s, stdin = inp, moved_count = 0, deleted_count = 0, raised = None,
               messages = []\<rparr>
      in if duplicate_groups = [] then r
         else if action = ''move'' \<and> \<not> exists s target_folder then
           (case makedirs s target_folder False of
              (None, s') \<Rightarrow> handle_groups ''move'' target_folder duplicate_groups (r\<lparr>dup_fs := s'\<rparr>)
            | (Some e, s') \<Rightarrow>
                if is_OSError e
                then handle_groups ''list'' target_folder duplicate_groups (r\<lparr>dup_fs := s'\<rparr>)
                else r\<lparr>dup_fs := s', raised := Some e\<rparr>)
         else handle_groups action target_folder duplicate_groups r)"


section \<open>Part 4: sorting the photos\<close>

text \<open>The loop \<^verbatim>\<open>while os.path.exists(new_filepath)\<close> of \<open>sort_photos\<close>, left by
  \<^verbatim>\<open>break\<close> when the candidate is the source file itself.  \<open>p\<close> is the path from which
  \<open>base\<close> and \<open>ext\<close> were split (\<open>original_new_filepath\<close>).  Of the exceptions of
  \<^verbatim>\<open>os.path.samefile\<close> only \<^verbatim>\<open>FileNotFoundError\<close> is caught; another one leaves the loop and
  the function (\<open>Inl\<close>).\<close>

function unique_dest :: "fs \<Rightarrow> path \<Rightarrow> path \<Rightarrow> nat \<Rightarrow> path \<Rightarrow> error + path" where
  "unique_dest s filepath p counter new_filepath =
     (if exists s new_filepath then
        (case samefile s filepath new_filepath of
           Inr same \<Rightarrow>
             if same then Inr new_filepath
             else unique_dest s filepath p (counter + 1) (suffixed p counter)
         | Inl e \<Rightarrow>
             if e = FileNotFoundError
             then unique_dest s filepath p (counter + 1) (suffixed p counter)
             else Inl e)
      else Inr new_filepath)"
  by pat_completeness auto
termination
  by (relation "measure (\<lambda>(s, filepath, p, counter, new_filepath). names_left s p counter new_filepath)")
     (simp_all add: names_left_decreases)

declare unique_dest.simps [simp del]
declare free_path.simps [simp del]

definition day_folder_of :: "path \<Rightarrow> datetime \<Rightarrow> path" where
  "day_folder_of destination_base_folder photo_date =
     (let year_folder = join destination_base_folder (str_nat (year photo_date));
          month_folder = join year_folder (pad2 (month photo_date));
          day_folder = join month_folder (pad2 (day photo_date))
      in day_folder)"

text \<open>What happened to one file of the list; the path is \<open>new_filepath\<close> (the day folder
  for a failed \<^verbatim>\<open>makedirs\<close>).  \<open>sort_raised\<close> is the exception that ended the run, if one
  did.\<close>

datatype sort_outcome =
  Missing | No_date | Mkdir_failed path error
  | In_place path | Moved_to path | Move_failed path error

record sort_run =
  sort_fs :: fs
  processed_count :: nat
  skipped_count :: nat
  outcomes :: "(path \<times> sort_outcome) list"
  sort_raised :: "error option"

definition skipped :: "sort_run \<Rightarrow> path \<Rightarrow> sort_outcome \<Rightarrow> sort_run" where
  "skipped r filepath oc =
     r\<lparr>skipped_count := skipped_count r + 1, outcomes := outcomes r @ [(filepath, oc)]\<rparr>"

text \<open>The body of the loop over \<open>image_paths\<close>.\<close>

definition sort_file :: "path \<Rightarrow> path \<Rightarrow> sort_run \<Rightarrow> sort_run" where
  "sort_file destination_base_folder filepath r =
     (if \<not> exists (sort_fs r) filepath then skipped r filepath Missing
      else case get_photo_date (sort_fs r) filepath of
             None \<Rightarrow> skipped r filepath No_date
           | Some photo_date \<Rightarrow>
               let day_folder = day_folder_of destination_base_folder photo_date
               in case makedirs (sort_fs r) day_folder True of
                    (Some e, s1) \<Rightarrow>
                      if is_OSError e
                      then skipped (r\<lparr>sort_fs := s1\<rparr>) filepath (Mkdir_failed day_folder e)
                      else r\<lparr>sort_fs := s1, sort_raised := Some e\<rparr>
                  | (None, s1) \<Rightarrow>
                      let filename = basename filepath;
                          original_new_filepath = join day_folder filename
                      in case unique_dest s1 filepath original_new_filepath 1
                                original_new_filepath of
                           Inl e \<Rightarrow> r\<lparr>sort_fs := s1, sort_raised := Some e\<rparr>
                         | Inr new_filepath \<Rightarrow>
                             if abspath (cwd s1) filepath = abspath (cwd s1) new_filepath
                                \<and> exists s1 new_filepath
                             then r\<lparr>sort_fs := s1,
                                    outcomes := outcomes r @ [(filepath, In_place new_filepath)]\<rparr>
                             else case shutil_move s1 filepath new_filepath of
                                    (None, s2) \<Rightarrow>
                                      r\<lparr>sort_fs := s2, processed_count := processed_count r + 1,
                                        outcomes := outcomes r @ [(filepath, Moved_to new_filepath)]\<rparr>
                                  | (Some e, s2) \<Rightarrow>
                                      if is_OSError e
                                      then skipped (r\<lparr>sort_fs := s2\<rparr>) filepath
                                             (Move_failed new_filepath e)
                                      else r\<lparr>sort_fs := s2, sort_raised := Some e\<rparr>)"

text \<open>The loop over \<open>image_paths\<close>; an exception ends it.\<close>

fun sort_files :: "path \<Rightarrow> path list \<Rightarrow> sort_run \<Rightarrow> sort_run" where
  "sort_files destination_base_folder [] r = r"
| "sort_files destination_base_folder (filepath # rest) r =
     (let r' = sort_file destination_base_folder filepath r
      in if sort_raised r' \<noteq> None then r' else sort_files destination_base_folder rest r')"

definition sort_photos :: "fs \<Rightarrow> path list \<Rightarrow> path \<Rightarrow> sort_run" where
  "sort_photos s image_paths destination_base_folder =
     (let r = \<lparr>sort_fs = s, processed_count = 0, skipped_count = 0, outcomes = [],
               sort_raised = None\<rparr>
      in if image_paths = [] then r
         else if \<not> exists s destination_base_folder then
           (case makedirs s destination_base_folder False of
              (Some e, s') \<Rightarrow>
                if is_OSError e then r\<lparr>sort_fs := s'\<rparr> else r\<lparr>sort_fs := s', sort_raised := Some e\<rparr>
            | (None, s') \<Rightarrow> sort_files destination_base_folder image_paths (r\<lparr>sort_fs := s'\<rparr>))
         else sort_files destination_base_folder image_paths r)"

(*DEFS*)

section \<open>Example filesystems\<close>

text \<open>\<open>/p/a.jpg\<close> and \<open>/p/b.jpg\<close> hold the same bytes, \<open>/p/c.jpg\<close> has another size, and
  \<open>/p/link.jpg\<close> is a second name (a hard link) of \<open>/p/a.jpg\<close>.  The digest function of
  the examples returns the content itself.\<close>

definition plain_inode :: "string \<Rightarrow> inode" where
  "plain_inode c = \<lparr>content = c, readable = True, fault_at = None, exif = ExifTags [], mtime = None\<rparr>"

definition fs_dup :: fs where
  "fs_dup = \<lparr>entries = [([''p''], Dir), ([''p'', ''a.jpg''], File 1), ([''p'', ''b.jpg''], File 2),
                          ([''p'', ''c.jpg''], File 3), ([''p'', ''link.jpg''], File 1)],
     inodes = (\<lambda>i. if i = 3 then plain_inode ''yyyy'' else plain_inode ''xxx''),
     cwd = ''/'', ro_dirs = [], dir_mtime = (\<lambda>k. None)\<rparr>"



section \<open>Properties of the hasher\<close>












section \<open>Properties of the duplicate detector\<close>






































section \<open>Properties of the date resolver\<close>


text \<open>Example filesystem: \<open>/src/a.jpg\<close> carries an EXIF capture date, \<open>/src/b.jpg\<close> has
  no EXIF tags, the metadata of \<open>/src/c.jpg\<close> cannot be read, and the capture date of
  \<open>/src/d.jpg\<close> is written with a no-break space; all were last modified on 2019-01-02.\<close>

definition exif_inode :: "exif_read \<Rightarrow> datetime option \<Rightarrow> inode" where
  "exif_inode ex mt = \<lparr>content = ''jpeg'', readable = True, fault_at = None, exif = ex, mtime = mt\<rparr>"

definition date_2019_01_02 :: datetime where
  "date_2019_01_02 = \<lparr>year = 2019, month = 1, day = 2, hour = 8, minute = 30, second = 0\<rparr>"

definition date_2020_05_17 :: datetime where
  "date_2020_05_17 = \<lparr>year = 2020, month = 5, day = 17, hour = 10, minute = 0, second = 0\<rparr>"









section \<open>Properties of the duplicate resolver\<close>

text \<open>What a run leaves alone when nothing is moved or deleted.\<close>

definition untouched :: "dup_run \<Rightarrow> dup_run \<Rightarrow> bool" where
  "untouched r r' = (dup_fs r' = dup_fs r \<and> moved_count r' = moved_count r
                      \<and> deleted_count r' = deleted_count r)"

lemma untouched_refl: "untouched r r"
  by (simp add: untouched_def)

lemma untouched_trans: "untouched r r' \<Longrightarrow> untouched r' r'' \<Longrightarrow> untouched r r''"
  by (simp add: untouched_def)

lemma handle_group_unrecognized:
  assumes "action \<noteq> ''list''" "action \<noteq> ''move''" "action \<noteq> ''delete''"
  shows "untouched r (handle_group action t paths r)
         \<and> set (messages (handle_group action t paths r)) \<subseteq> set (messages r) \<union> {Unrecognized action}"
  using assms by (auto simp: handle_group_def untouched_def split: list.splits)

lemma handle_groups_unrecognized:
  assumes "action \<noteq> ''list''" "action \<noteq> ''move''" "action \<noteq> ''delete''"
  shows "untouched r (handle_groups action t groups r)
         \<and> set (messages (handle_groups action t groups r)) \<subseteq> set (messages r) \<union> {Unrecognized action}"
proof (induction groups arbitrary: r)
  case Nil
  show ?case by (auto simp: untouched_def)
next
  case (Cons g groups)
  obtain h paths where g: "g = (h, paths)" by (cases g)
  let ?r' = "handle_group action t paths r"
  have 1: "untouched r ?r'" "set (messages ?r') \<subseteq> set (messages r) \<union> {Unrecognized action}"
    using handle_group_unrecognized[OF assms, of r t paths] by simp_all
  show ?case
  proof (cases "raised ?r' \<noteq> None")
    case True
    with 1 g show ?thesis by (simp add: Let_def)
  next
    case False
    have "untouched ?r' (handle_groups action t groups ?r')"
      "set (messages (handle_groups action t groups ?r')) \<subseteq> set (messages ?r') \<union> {Unrecognized action}"
      using Cons.IH[of ?r'] by simp_all
    with 1 False g show ?thesis
      by (auto simp: Let_def intro: untouched_trans)
  qed
qed

text \<open>
  Claim C10.  With an action other than \<open>list\<close>, \<open>move\<close> and \<open>delete\<close>, a run of
  \<open>handle_duplicates\<close> returns the filesystem it was given (no file moved or removed, no
  directory created), both counters are zero, and the only message about an action is
  that the action is not recognised.
\<close>

theorem handle_duplicates_unrecognized_action:
  assumes "action \<noteq> ''list''" "action \<noteq> ''move''" "action \<noteq> ''delete''"
  shows "dup_fs (handle_duplicates s inp duplicate_groups action target_folder) = s
       \<and> moved_count (handle_duplicates s inp duplicate_groups action target_folder) = 0
       \<and> deleted_count (handle_duplicates s inp duplicate_groups action target_folder) = 0
       \<and> set (messages (handle_duplicates s inp duplicate_groups action target_folder))
            \<subseteq> {Unrecognized action}"
proof -
  let ?r = "\<lparr>dup_fs = s, stdin = inp, moved_count = 0, deleted_count = 0, raised = None, messages = []\<rparr>"
  have hd: "handle_duplicates s inp duplicate_groups action target_folder
          = (if duplicate_groups = [] then ?r else handle_groups action target_folder duplicate_groups ?r)"
    using assms(2) by (simp add: handle_duplicates_def Let_def)
  show ?thesis
    using handle_groups_unrecognized[OF assms, of ?r target_folder duplicate_groups]
    unfolding hd by (auto simp: untouched_def)
qed

theorem handle_duplicates_unrecognized_action_witness:
  "''archive'' \<noteq> ''list'' \<and> ''archive'' \<noteq> ''move'' \<and> ''archive'' \<noteq> ''delete''
   \<and> dup_fs (handle_duplicates fs_dup [] [(''xxx'', [''/p/a.jpg'', ''/p/b.jpg''])] ''archive'' ''/dups'') = fs_dup
   \<and> messages (handle_duplicates fs_dup [] [(''xxx'', [''/p/a.jpg'', ''/p/b.jpg''])] ''archive'' ''/dups'')
       = [Unrecognized ''archive'']"
  using handle_duplicates_unrecognized_action [of "''archive''" fs_dup "[]"
          "[(''xxx'', [''/p/a.jpg'', ''/p/b.jpg''])]" "''/dups''"]
  by (simp add: handle_duplicates_def handle_group_def)

lemma handle_group_declined:
  assumes "stdin r = [] \<or> lower (hd (stdin r)) \<noteq> ''o''"
  shows "untouched r (handle_group ''delete'' t paths r)
         \<and> stdin (handle_group ''delete'' t paths r) \<in> {stdin r, tl (stdin r)}"
  using assms by (auto simp: handle_group_def untouched_def split: list.splits)

lemma handle_groups_declined:
  assumes "\<forall>line \<in> set (stdin r). lower line \<noteq> ''o''"
  shows "untouched r (handle_groups ''delete'' t groups r)"
  using assms
proof (induction groups arbitrary: r)
  case Nil
  show ?case by (simp add: untouched_def)
next
  case (Cons g groups)
  obtain h paths where g: "g = (h, paths)" by (cases g)
  let ?r' = "handle_group ''delete'' t paths r"
  have pre: "stdin r = [] \<or> lower (hd (stdin r)) \<noteq> ''o''"
    using Cons.prems by (cases "stdin r") auto
  note 1 = handle_group_declined[OF pre, of t paths]
  have "set (stdin ?r') \<subseteq> set (stdin r)"
    using 1 by (cases "stdin r") auto
  with Cons.prems have "\<forall>line \<in> set (stdin ?r'). lower line \<noteq> ''o''" by blast
  then have "untouched ?r' (handle_groups ''delete'' t groups ?r')" by (rule Cons.IH)
  with 1 g show ?case
    by (auto simp: Let_def intro: untouched_trans)
qed

lemma lower_examples: "lower ''n'' = ''n''" "lower ''O'' = ''o''" "lower ''oui'' = ''oui''"
  by code_simp+

text \<open>
  Claim C6.  Under the action \<open>delete\<close>, a group whose confirmation line is not \<open>o\<close> or \<open>O\<close>
  (or whose prompt finds standard input exhausted) leaves the filesystem and the deletion
  count as they were; a run in which no line read is affirmative returns the filesystem
  unchanged and reports zero deletions.  Files are removed only by \<open>delete_dups\<close>, which
  \<open>handle_group\<close> calls after the confirmation test.
\<close>

theorem delete_needs_confirmation:
  "(stdin r = [] \<or> lower (hd (stdin r)) \<noteq> ''o''
      \<longrightarrow> dup_fs (handle_group ''delete'' target_folder paths r) = dup_fs r
          \<and> deleted_count (handle_group ''delete'' target_folder paths r) = deleted_count r)
   \<and> ((\<forall>line \<in> set inp. lower line \<noteq> ''o'')
      \<longrightarrow> dup_fs (handle_duplicates s inp duplicate_groups ''delete'' target_folder) = s
          \<and> deleted_count (handle_duplicates s inp duplicate_groups ''delete'' target_folder) = 0)"
proof (intro conjI impI)
  assume a: "stdin r = [] \<or> lower (hd (stdin r)) \<noteq> ''o''"
  show "dup_fs (handle_group ''delete'' target_folder paths r) = dup_fs r"
    "deleted_count (handle_group ''delete'' target_folder paths r) = deleted_count r"
    using handle_group_declined[OF a, of target_folder paths] by (simp_all add: untouched_def)
next
  let ?r = "\<lparr>dup_fs = s, stdin = inp, moved_count = 0, deleted_count = 0, raised = None, messages = []\<rparr>"
  assume a: "\<forall>line \<in> set inp. lower line \<noteq> ''o''"
  have hd: "handle_duplicates s inp duplicate_groups ''delete'' target_folder
          = (if duplicate_groups = [] then ?r else handle_groups ''delete'' target_folder duplicate_groups ?r)"
    by (simp add: handle_duplicates_def Let_def)
  from a have "untouched ?r (handle_groups ''delete'' target_folder duplicate_groups ?r)"
    by (intro handle_groups_declined) simp
  then show "dup_fs (handle_duplicates s inp duplicate_groups ''delete'' target_folder) = s"
    "deleted_count (handle_duplicates s inp duplicate_groups ''delete'' target_folder) = 0"
    unfolding hd by (auto simp: untouched_def)
qed

theorem delete_needs_confirmation_witness:
  "lower ''oui'' \<noteq> ''o''
   \<and> dup_fs (handle_duplicates fs_dup [''oui''] [(''xxx'', [''/p/a.jpg'', ''/p/b.jpg''])] ''delete'' ''/dups'') = fs_dup
   \<and> deleted_count (handle_duplicates fs_dup [''oui''] [(''xxx'', [''/p/a.jpg'', ''/p/b.jpg''])] ''delete'' ''/dups'') = 0
   \<and> messages (handle_duplicates fs_dup [''oui''] [(''xxx'', [''/p/a.jpg'', ''/p/b.jpg''])] ''delete'' ''/dups'') = [Cancelled]"
  using delete_needs_confirmation [of "\<lparr>dup_fs = fs_dup, stdin = [''oui''], moved_count = 0, deleted_count = 0, raised = None, messages = []\<rparr>"
           "''/dups''" "[''/p/a.jpg'', ''/p/b.jpg'']" "[''oui'']" fs_dup "[(''xxx'', [''/p/a.jpg'', ''/p/b.jpg''])]"]
  by (simp add: lower_examples handle_duplicates_def handle_group_def)

section \<open>Frame properties of the filesystem operations\<close>

text \<open>\<open>kept X s s'\<close>: every entry of \<open>s\<close> outside the keys \<open>X\<close> is an entry of \<open>s'\<close>, with
  the same inode and the same inode data; entries may have been added.\<close>

definition kept :: "key set \<Rightarrow> fs \<Rightarrow> fs \<Rightarrow> bool" where
  "kept X s s' =
     (cwd s' = cwd s \<and> ro_dirs s' = ro_dirs s \<and> dir_mtime s' = dir_mtime s \<and>
      (\<forall>k n. k \<notin> X \<longrightarrow> node_at s k = Some n \<longrightarrow>
         node_at s' k = Some n \<and> (\<forall>j. n = File j \<longrightarrow> inodes s' j = inodes s j)))"

lemma kept_refl: "kept X s s"
  by (simp add: kept_def)

lemma kept_trans: "kept X s s' \<Longrightarrow> kept Y s' s'' \<Longrightarrow> kept (X \<union> Y) s s''"
  unfolding kept_def by (intro conjI allI impI) (simp_all, metis+)




lemma node_at_update:
  "k \<noteq> [] \<Longrightarrow> node_at (s\<lparr>entries := AList.update k v (entries s)\<rparr>) k' =
      (if k' = k then Some v else node_at s k')"
  by (simp add: node_at_def update_conv')


subsection \<open>Creating directories\<close>

text \<open>Every prefix of the key is a directory.\<close>

definition dirs_exist :: "fs \<Rightarrow> key \<Rightarrow> bool" where
  "dirs_exist s k = list_all (\<lambda>n. node_at s (take n k) = Some Dir) [0 ..< Suc (length k)]"

lemma dirs_exist_iff: "dirs_exist s k = (\<forall>n \<le> length k. node_at s (take n k) = Some Dir)"
  by (auto simp: dirs_exist_def list_all_iff less_Suc_eq_le)

lemma mkdir_chain_kept: "mkdir_chain s pre cs = (e, s') \<Longrightarrow> kept {} s s'"
proof (induction s pre cs arbitrary: e s' rule: mkdir_chain.induct)
  case (1 s pre)
  then show ?case by (simp add: kept_refl)
next
  case (2 s pre c cs)
  show ?case
  proof (cases "node_at s (pre @ [c])")
    case None
    show ?thesis
    proof (cases "has_nul c \<or> pre \<in> set (ro_dirs s)")
      case True
      with None "2.prems" show ?thesis by (auto simp: kept_refl split: if_splits)
    next
      case False
      then have nn: "\<not> has_nul c" and ro: "pre \<notin> set (ro_dirs s)" by auto
      let ?s1 = "s\<lparr>entries := AList.update (pre @ [c]) Dir (entries s)\<rparr>"
      from None False "2.prems" have "mkdir_chain ?s1 (pre @ [c]) cs = (e, s')" by simp
      from "2.IH"(1)[OF None nn ro this] have "kept {} ?s1 s'" .
      moreover have "kept {} s ?s1"
        using None by (auto simp: kept_def node_at_update)
      ultimately show ?thesis using kept_trans by fastforce
    qed
  next
    case (Some nd)
    with "2.prems" "2.IH"(2) show ?thesis
      by (cases nd) (auto simp: kept_refl split: if_splits)
  qed
qed

lemma mkdir_chain_done:
  "mkdir_chain s pre cs = (None, s') \<Longrightarrow> n \<le> length cs \<Longrightarrow> 0 < n \<Longrightarrow>
   node_at s' (pre @ take n cs) = Some Dir"
proof (induction s pre cs arbitrary: s' n rule: mkdir_chain.induct)
  case (1 s pre)
  then show ?case by simp
next
  case (2 s pre c cs)
  let ?k = "pre @ [c]"
  obtain s1 where s1: "mkdir_chain s1 ?k cs = (None, s')" "node_at s1 ?k = Some Dir"
  proof (cases "node_at s ?k")
    case None
    with "2.prems"(1) have ro: "pre \<notin> set (ro_dirs s)"
      and "mkdir_chain (s\<lparr>entries := AList.update ?k Dir (entries s)\<rparr>) ?k cs = (None, s')"
      by (auto split: if_splits)
    then show ?thesis
      by (intro that[of "s\<lparr>entries := AList.update ?k Dir (entries s)\<rparr>"]) (simp_all add: node_at_update)
  next
    case (Some nd)
    with "2.prems"(1) show ?thesis
      by (cases nd) (auto intro: that[of s] split: if_splits)
  qed
  show ?case
  proof (cases "n = 1")
    case True
    from mkdir_chain_kept[OF s1(1)] s1(2) have "node_at s' ?k = Some Dir"
      by (simp add: kept_def)
    with True show ?thesis by simp
  next
    case False
    with "2.prems" obtain m where m: "n = Suc m" "0 < m" "m \<le> length cs"
      by (cases n) auto
    have "node_at s' (?k @ take m cs) = Some Dir"
    proof (cases "node_at s ?k")
      case None
      with "2.prems"(1) have nn: "\<not> has_nul c" and ro: "pre \<notin> set (ro_dirs s)"
        and mc: "mkdir_chain (s\<lparr>entries := AList.update ?k Dir (entries s)\<rparr>) ?k cs = (None, s')"
        by (auto split: if_splits)
      from "2.IH"(1)[OF None nn ro mc m(3) m(2)] show ?thesis .
    next
      case (Some nd)
      with "2.prems"(1) have nd: "nd = Dir" and mc: "mkdir_chain s ?k cs = (None, s')"
        by (cases nd; auto split: if_splits)+
      from "2.IH"(2)[OF Some nd mc m(3) m(2)] show ?thesis .
    qed
    with m show ?thesis by simp
  qed
qed



lemma node_at_root: "node_at s [] = Some Dir"
  by (simp add: node_at_def)

lemma makedirs_done:
  assumes "makedirs s p True = (None, s')"
  shows "dirs_exist s' (key_of s p) \<and> p \<noteq> []"
proof -
  from assms have p: "p \<noteq> []" and mc: "mkdir_chain s [] (key_of s p) = (None, s')"
    by (auto simp: makedirs_def split: if_splits)
  have "node_at s' (take n (key_of s p)) = Some Dir" if "n \<le> length (key_of s p)" for n
  proof (cases "n = 0")
    case True
    then show ?thesis by (simp add: node_at_root)
  next
    case False
    with mkdir_chain_done[OF mc that] show ?thesis by simp
  qed
  with p show ?thesis by (simp add: dirs_exist_iff)
qed


lemma dirs_exist_kept:
  assumes "kept X s s'" "dirs_exist s k" "\<And>x. x \<in> X \<Longrightarrow> node_at s x \<noteq> Some Dir"
  shows "dirs_exist s' k"
  unfolding dirs_exist_iff
proof (intro allI impI)
  fix n assume "n \<le> length k"
  with assms(2) have d: "node_at s (take n k) = Some Dir" by (simp add: dirs_exist_iff)
  with assms(3) have "take n k \<notin> X" by blast
  with assms(1) d show "node_at s' (take n k) = Some Dir" by (simp add: kept_def)
qed

subsection \<open>Moving a regular file\<close>

lemma lookup_FileD:
  assumes "lookup s p = Some (File i)"
  shows "p \<noteq> []" "node_at s (key_of s p) = Some (File i)" "plain_name p" "key_of s p \<noteq> []"
    "\<not> has_nul p"
proof -
  from assms show "p \<noteq> []" by (auto simp: lookup_def)
  from assms show "\<not> has_nul p" by (auto simp: lookup_def)
  from assms show n: "node_at s (key_of s p) = Some (File i)"
    by (auto simp: lookup_def split: if_splits option.splits node.splits)
  from assms show "plain_name p"
    by (auto simp: lookup_def plain_name_def split: if_splits option.splits node.splits)
  from n show "key_of s p \<noteq> []" by (auto simp: node_at_def)
qed

















subsection \<open>Names inside a folder\<close>

lemma basename_append:
  assumes "q = [] \<or> last q = sep" "sep \<notin> set n"
  shows "basename (q @ n) = n" "dirpart (q @ n) = q"
proof -
  from assms(2) have all: "\<And>x. x \<in> set (rev n) \<Longrightarrow> x \<noteq> sep" by auto
  have "takeWhile (\<lambda>c. c \<noteq> sep) (rev q) = [] \<and> dropWhile (\<lambda>c. c \<noteq> sep) (rev q) = rev q"
  proof (cases "q = []")
    case True
    then show ?thesis by simp
  next
    case False
    with assms(1) obtain q0 where "q = q0 @ [sep]" by (metis append_butlast_last_id)
    then show ?thesis by simp
  qed
  moreover have "takeWhile (\<lambda>c. c \<noteq> sep) (rev n @ rev q) = rev n @ takeWhile (\<lambda>c. c \<noteq> sep) (rev q)"
    by (rule takeWhile_append2) (rule all)
  moreover have "dropWhile (\<lambda>c. c \<noteq> sep) (rev n @ rev q) = dropWhile (\<lambda>c. c \<noteq> sep) (rev q)"
    by (rule dropWhile_append2) (rule all)
  ultimately have "takeWhile (\<lambda>c. c \<noteq> sep) (rev n @ rev q) = rev n"
    and "dropWhile (\<lambda>c. c \<noteq> sep) (rev n @ rev q) = rev q"
    by simp_all
  then show "basename (q @ n) = n" "dirpart (q @ n) = q"
    by (simp_all add: basename_def dirpart_def)
qed

lemma plain_name_proper: "plain_name p \<Longrightarrow> proper (basename p)"
  using sep_notin_basename[of p] by (simp add: plain_name_def proper_def)

lemma basename_join: "proper n \<Longrightarrow> basename (join d n) = n"
  using basename_append(1)[OF dir_prefix_ends, of n d] proper_hd[of n]
  by (simp add: join_name proper_def)

lemma plain_name_join: "proper n \<Longrightarrow> plain_name (join d n)"
  by (simp add: plain_name_def basename_join) (simp add: proper_def)

lemma splitext_append:
  assumes "q = [] \<or> last q = sep" "sep \<notin> set n"
  shows "splitext (q @ n) = (q @ fst (splitext n), snd (splitext n))"
proof -
  define ext where "ext = rev (takeWhile (\<lambda>c. c \<noteq> extsep) (rev n))"
  define stem where "stem = take (length n - length ext - 1) n"
  define split_here where "split_here = (extsep \<in> set n \<and> (\<exists>c \<in> set stem. c \<noteq> extsep))"
  have bn: "basename n = n" "dirpart n = []"
    using basename_append[of "[]" n] assms(2) by simp_all
  have 1: "splitext (q @ n) = (if split_here then (q @ stem, extsep # ext) else (q @ n, []))"
    unfolding splitext_def Let_def basename_append[OF assms] split_here_def stem_def ext_def ..
  have "splitext n = (if split_here then ([] @ stem, extsep # ext) else (n, []))"
    unfolding splitext_def Let_def bn split_here_def stem_def ext_def ..
  then have 2: "splitext n = (if split_here then (stem, extsep # ext) else (n, []))"
    by (simp only: append_Nil)
  show ?thesis
    unfolding 1 2 by (cases split_here) (simp_all only: if_True if_False fst_conv snd_conv)
qed

lemma suffixed_append:
  assumes "q = [] \<or> last q = sep" "sep \<notin> set n"
  shows "suffixed (q @ n) k = q @ suffixed n k"
proof -
  show ?thesis
    by (simp add: suffixed_def splitext_append[OF assms] split: prod.splits)
qed

lemma proper_suffixed:
  assumes "sep \<notin> set n"
  shows "proper (suffixed n k)"
proof -
  obtain b e where be: "splitext n = (b, e)" by (cases "splitext n")
  from splitext_parts[OF be] assms have e: "sep \<notin> set e" and b: "sep \<notin> set b" by auto
  have "suffixed n k = b @ tail_of k e" using be by (rule suffixed_tail)
  moreover have "b @ tail_of k e \<noteq> []" "b @ tail_of k e \<noteq> ''.''" "b @ tail_of k e \<noteq> ''..''"
    "sep \<notin> set (tail_of k e)"
    using tail_of_plain[OF e] by simp_all
  ultimately show ?thesis
    using b by (simp add: proper_def)
qed

lemma suffixed_join:
  assumes "proper n"
  shows "suffixed (join d n) k = join d (suffixed n k)"
proof -
  from assms have n: "sep \<notin> set n" by (simp add: proper_def)
  have "join d (suffixed n k) = dir_prefix d @ suffixed n k"
    using proper_hd[OF proper_suffixed[OF n]] by (simp add: join_name)
  moreover have "join d n = dir_prefix d @ n"
    using proper_hd[OF assms] by (simp add: join_name)
  ultimately show ?thesis
    using suffixed_append[OF dir_prefix_ends n] by simp
qed

text \<open>The candidates of the renaming loops: the name itself, then the suffixed names.\<close>

definition candidate :: "path \<Rightarrow> nat \<Rightarrow> path" where
  "candidate p k = (if k = 0 then p else suffixed p k)"

definition candidate_name :: "string \<Rightarrow> nat \<Rightarrow> string" where
  "candidate_name n k = (if k = 0 then n else suffixed n k)"

lemma candidate_join:
  "proper n \<Longrightarrow> candidate (join d n) k = join d (candidate_name n k)"
  by (simp add: candidate_def candidate_name_def suffixed_join)

lemma proper_candidate_name:
  assumes "proper n"
  shows "proper (candidate_name n k)"
proof (cases "k = 0")
  case True
  with assms show ?thesis by (simp add: candidate_name_def)
next
  case False
  from assms have "sep \<notin> set n" by (simp add: proper_def)
  then have "proper (suffixed n k)" by (rule proper_suffixed)
  with False show ?thesis by (simp add: candidate_name_def)
qed

lemma join_basename_join: "proper n \<Longrightarrow> join d (basename (join d n)) = join d n"
  by (simp add: basename_join)

lemma join_proper_nonempty: "proper n \<Longrightarrow> join d n \<noteq> []"
  using proper_hd[of n] by (simp add: join_name)

lemma candidate_in_folder:
  assumes "proper n"
  shows "key_of s (candidate (join d n) k) = key_of s d @ [candidate_name n k]"
    and "plain_name (candidate (join d n) k)"
    and "join d (basename (candidate (join d n) k)) = candidate (join d n) k"
    and "candidate (join d n) k \<noteq> []"
proof -
  note pc = proper_candidate_name[OF assms, of k]
  note cj = candidate_join[OF assms, of d k]
  show "key_of s (candidate (join d n) k) = key_of s d @ [candidate_name n k]"
    unfolding cj using pc by (rule key_of_join)
  show "plain_name (candidate (join d n) k)"
    unfolding cj using pc by (rule plain_name_join)
  show "join d (basename (candidate (join d n) k)) = candidate (join d n) k"
    unfolding cj using pc by (rule join_basename_join)
  show "candidate (join d n) k \<noteq> []"
    unfolding cj using pc by (rule join_proper_nonempty)
qed

subsection \<open>The renaming loops\<close>

text \<open>A candidate is taken when it exists and is not the source file itself.\<close>

definition taken :: "fs \<Rightarrow> path \<Rightarrow> path \<Rightarrow> bool" where
  "taken s filepath x = (exists s x \<and> samefile s filepath x \<noteq> Inr True)"

lemma samefile_cases:
  assumes "exists s x" "\<not> has_nul filepath"
  shows "samefile s filepath x = Inl FileNotFoundError \<or> (\<exists>b. samefile s filepath x = Inr b)"
  using assms by (auto simp: samefile_def exists_def split: option.splits)

lemma unique_dest_result:
  assumes "\<not> has_nul filepath"
  shows
  "(\<not> taken s filepath x \<and> unique_dest s filepath p counter x = Inr x) \<or>
   (taken s filepath x \<and>
    (\<exists>k \<ge> counter. unique_dest s filepath p counter x = Inr (suffixed p k)
         \<and> \<not> taken s filepath (suffixed p k)
         \<and> (\<forall>j. counter \<le> j \<and> j < k \<longrightarrow> taken s filepath (suffixed p j))))"
  using assms
proof (induction s filepath p counter x rule: unique_dest.induct)
  case (1 s filepath p counter x)
  note nn = "1.prems"
  show ?case
  proof (cases "taken s filepath x")
    case False
    then have "unique_dest s filepath p counter x = Inr x"
      by (subst unique_dest.simps) (auto simp: taken_def split: sum.splits)
    with False show ?thesis by simp
  next
    case True
    then have ex: "exists s x" and ns: "samefile s filepath x \<noteq> Inr True" by (simp_all add: taken_def)
    let ?next = "unique_dest s filepath p (counter + 1) (suffixed p counter)"
    let ?P = "(\<not> taken s filepath (suffixed p counter) \<and> ?next = Inr (suffixed p counter)) \<or>
      (taken s filepath (suffixed p counter) \<and>
       (\<exists>k \<ge> counter + 1. ?next = Inr (suffixed p k)
         \<and> \<not> taken s filepath (suffixed p k)
         \<and> (\<forall>j. counter + 1 \<le> j \<and> j < k \<longrightarrow> taken s filepath (suffixed p j))))"
    have u: "unique_dest s filepath p counter x = ?next" and IH: ?P
    proof -
      from samefile_cases[OF ex nn] ns
      consider "samefile s filepath x = Inl FileNotFoundError" | "samefile s filepath x = Inr False"
        by auto
      then have "unique_dest s filepath p counter x = ?next \<and> ?P"
      proof cases
        case 1
        have "unique_dest s filepath p counter x = ?next"
          using ex 1 by (subst unique_dest.simps) simp
        moreover have ?P using "1.IH"(1)[OF ex 1 refl nn] .
        ultimately show ?thesis ..
      next
        case 2
        have "unique_dest s filepath p counter x = ?next"
          using ex 2 by (subst unique_dest.simps) simp
        moreover have ?P using "1.IH"(2)[OF ex 2 _ nn] by simp
        ultimately show ?thesis ..
      qed
      then show "unique_dest s filepath p counter x = ?next" and ?P by simp_all
    qed
    show ?thesis
    proof (cases "taken s filepath (suffixed p counter)")
      case False
      with IH have "?next = Inr (suffixed p counter)"
        by simp
      with u False True show ?thesis
        by (intro disjI2 conjI exI[of _ counter]) auto
    next
      case t: True
      with IH obtain k where k: "counter + 1 \<le> k"
        "?next = Inr (suffixed p k)"
        "\<not> taken s filepath (suffixed p k)"
        "\<forall>j. counter + 1 \<le> j \<and> j < k \<longrightarrow> taken s filepath (suffixed p j)"
        by blast
      have "\<forall>j. counter \<le> j \<and> j < k \<longrightarrow> taken s filepath (suffixed p j)"
      proof (intro allI impI)
        fix j assume j: "counter \<le> j \<and> j < k"
        show "taken s filepath (suffixed p j)"
        proof (cases "j = counter")
          case True
          with t show ?thesis by simp
        next
          case False
          with j k(4) show ?thesis by simp
        qed
      qed
      with k u True show ?thesis
        by (intro disjI2 conjI exI[of _ k]) simp_all
    qed
  qed
qed

lemma free_path_result:
  "(\<not> exists s x \<and> free_path s p counter x = x) \<or>
   (exists s x \<and>
    (\<exists>k \<ge> counter. free_path s p counter x = suffixed p k
         \<and> \<not> exists s (suffixed p k)
         \<and> (\<forall>j. counter \<le> j \<and> j < k \<longrightarrow> exists s (suffixed p j))))"
proof (induction s p counter x rule: free_path.induct)
  case (1 s p counter x)
  show ?case
  proof (cases "exists s x")
    case False
    then have "free_path s p counter x = x"
      by (subst free_path.simps) simp
    with False show ?thesis by simp
  next
    case True
    then have u: "free_path s p counter x = free_path s p (counter + 1) (suffixed p counter)"
      by (subst free_path.simps) simp
    note IH = "1.IH"[OF True]
    show ?thesis
    proof (cases "exists s (suffixed p counter)")
      case False
      with IH have "free_path s p (counter + 1) (suffixed p counter) = suffixed p counter"
        by simp
      with u False True show ?thesis
        by (intro disjI2 conjI exI[of _ counter]) auto
    next
      case t: True
      with IH obtain k where k: "counter + 1 \<le> k"
        "free_path s p (counter + 1) (suffixed p counter) = suffixed p k"
        "\<not> exists s (suffixed p k)"
        "\<forall>j. counter + 1 \<le> j \<and> j < k \<longrightarrow> exists s (suffixed p j)"
        by blast
      have "\<forall>j. counter \<le> j \<and> j < k \<longrightarrow> exists s (suffixed p j)"
      proof (intro allI impI)
        fix j assume j: "counter \<le> j \<and> j < k"
        show "exists s (suffixed p j)"
        proof (cases "j = counter")
          case True
          with t show ?thesis by simp
        next
          case False
          with j k(4) show ?thesis by simp
        qed
      qed
      with k u True show ?thesis
        by (intro disjI2 conjI exI[of _ k]) simp_all
    qed
  qed
qed

subsection \<open>One round of the sorting loop\<close>


lemma read_exif_file:
  "lookup s p = Some (File i) \<Longrightarrow>
   read_exif s p = (if readable (inodes s i) then exif (inodes s i) else ExifError)"
  by (simp add: read_exif_def)

lemma getmtime_date_file: "lookup s p = Some (File i) \<Longrightarrow> getmtime_date s p = mtime (inodes s i)"
  by (simp add: getmtime_date_def)

lemma get_photo_date_same_inode:
  assumes "lookup s p = Some (File i)" "lookup s' p' = Some (File j)" "inodes s' j = inodes s i"
  shows "get_photo_date s' p' = get_photo_date s p"
proof -
  have "read_exif s' p' = read_exif s p"
    by (simp add: read_exif_file[OF assms(1)] read_exif_file[OF assms(2)] assms(3))
  then have e: "exif_date s' p' = exif_date s p"
    by (simp add: exif_date_def)
  have m: "getmtime_date s' p' = getmtime_date s p"
    by (simp add: getmtime_date_file[OF assms(1)] getmtime_date_file[OF assms(2)] assms(3))
  show ?thesis
    unfolding get_photo_date_def e m ..
qed

text \<open>The path \<open>new_filepath\<close> that the loop body computes once the day folder exists.\<close>

definition destination :: "fs \<Rightarrow> path \<Rightarrow> path \<Rightarrow> datetime \<Rightarrow> path" where
  "destination s1 destination_base_folder filepath photo_date =
     (case unique_dest s1 filepath
             (join (day_folder_of destination_base_folder photo_date) (basename filepath)) 1
             (join (day_folder_of destination_base_folder photo_date) (basename filepath)) of
        Inr new_filepath \<Rightarrow> new_filepath
      | Inl e \<Rightarrow> [])"



text \<open>The destination of a regular file is free or the file itself, and lies in the day
  folder under the first candidate name that is not taken.\<close>

lemma destination_file:
  assumes "lookup s1 p = Some (File i)"
  defines "d0 \<equiv> \<lambda>dest dt. join (day_folder_of dest dt) (basename p)"
  shows "\<exists>k. destination s1 dest p dt = candidate (d0 dest dt) k
            \<and> \<not> taken s1 p (candidate (d0 dest dt) k)
            \<and> (\<forall>j < k. taken s1 p (candidate (d0 dest dt) j))"
proof -
  let ?d0 = "d0 dest dt"
  from unique_dest_result[OF lookup_FileD(5)[OF assms(1)], of s1 ?d0 ?d0 1]
  show ?thesis
  proof
    assume "\<not> taken s1 p ?d0 \<and> unique_dest s1 p ?d0 1 ?d0 = Inr ?d0"
    then show ?thesis
      by (intro exI[of _ 0]) (simp add: destination_def d0_def candidate_def)
  next
    assume "taken s1 p ?d0 \<and> (\<exists>k\<ge>1. unique_dest s1 p ?d0 1 ?d0 = Inr (suffixed ?d0 k)
              \<and> \<not> taken s1 p (suffixed ?d0 k)
              \<and> (\<forall>j. 1 \<le> j \<and> j < k \<longrightarrow> taken s1 p (suffixed ?d0 j)))"
    then obtain k where t0: "taken s1 p ?d0" and k: "1 \<le> k"
      "unique_dest s1 p ?d0 1 ?d0 = Inr (suffixed ?d0 k)" "\<not> taken s1 p (suffixed ?d0 k)"
      "\<forall>j. 1 \<le> j \<and> j < k \<longrightarrow> taken s1 p (suffixed ?d0 j)" by blast
    have "\<forall>j < k. taken s1 p (candidate ?d0 j)"
    proof (intro allI impI)
      fix j assume "j < k"
      with t0 k(4) show "taken s1 p (candidate ?d0 j)"
        by (cases "j = 0") (simp_all add: candidate_def)
    qed
    with k show ?thesis
      by (intro exI[of _ k]) (simp add: destination_def d0_def candidate_def)
  qed
qed


lemma destination_in_folder:
  assumes "lookup s1 p = Some (File i)"
  shows "join (day_folder_of dest dt) (basename (destination s1 dest p dt)) = destination s1 dest p dt"
    and "plain_name (destination s1 dest p dt)"
    and "destination s1 dest p dt \<noteq> []"
    and "butlast (key_of s1 (destination s1 dest p dt)) = key_of s1 (day_folder_of dest dt)"
proof -
  from lookup_FileD(3)[OF assms] have pn: "proper (basename p)" by (rule plain_name_proper)
  from destination_file[OF assms, of dest dt] obtain k where
    k: "destination s1 dest p dt = candidate (join (day_folder_of dest dt) (basename p)) k" by blast
  show "join (day_folder_of dest dt) (basename (destination s1 dest p dt)) = destination s1 dest p dt"
    unfolding k by (rule candidate_in_folder(3)[OF pn])
  show "plain_name (destination s1 dest p dt)"
    unfolding k by (rule candidate_in_folder(2)[OF pn])
  show "destination s1 dest p dt \<noteq> []"
    unfolding k by (rule candidate_in_folder(4)[OF pn])
  show "butlast (key_of s1 (destination s1 dest p dt)) = key_of s1 (day_folder_of dest dt)"
    unfolding k by (simp add: candidate_in_folder(1)[OF pn])
qed


lemma sort_file_missing:
  "lookup (sort_fs r) p = None \<Longrightarrow> sort_fs (sort_file dest p r) = sort_fs r"
  by (simp add: sort_file_def exists_def skipped_def)

subsection \<open>Paths without NUL\<close>

lemma digit_not_nul: "d < 10 \<Longrightarrow> digit d \<noteq> CHR 0x00"
proof
  assume "d < 10" and "digit d = CHR 0x00"
  then have "(of_char (CHR 0x00) :: nat) = 48 + d"
    using of_char_digit[of d] by simp
  then show False by simp
qed

lemma nul_notin_str_nat: "CHR 0x00 \<notin> set (str_nat n)"
proof (induction n rule: str_nat.induct)
  case (1 n)
  show ?case
  proof (cases "n < 10")
    case True
    then show ?thesis by (subst str_nat.simps) (simp add: digit_not_nul[THEN not_sym])
  next
    case False
    with 1 show ?thesis by (subst str_nat.simps) (simp add: digit_not_nul[THEN not_sym])
  qed
qed

lemma has_nul_suffixed: "has_nul (suffixed p k) = has_nul p"
proof -
  obtain b e where be: "splitext p = (b, e)" by (cases "splitext p")
  from splitext_parts[OF be] have p: "b @ e = p" by simp
  have "suffixed p k = b @ tail_of k e" using be by (rule suffixed_tail)
  then have "set (suffixed p k) = set p \<union> {CHR ''_''} \<union> set (str_nat k)"
    using p by (auto simp: tail_of_def)
  then show ?thesis
    using nul_notin_str_nat[of k] by (simp add: has_nul_def)
qed

lemma has_nul_candidate: "has_nul (candidate p k) = has_nul p"
  by (simp add: candidate_def has_nul_suffixed)





subsection \<open>A round whose first destination name is held\<close>






section \<open>Properties of the sorter\<close>

text \<open>Example filesystems.  The day folder \<open>/root/2020/05/17\<close> exists; every inode carries
  the EXIF capture date 2020-05-17 10:00:00, except inode 9, whose capture date is in the
  year 999.  \<open>run0 s\<close> is the state in which \<open>sort_photos\<close> enters its loop.\<close>

definition photo :: "string \<Rightarrow> inode" where
  "photo d = exif_inode (ExifTags [(''DateTimeOriginal'', Str d)]) (Some date_2019_01_02)"

definition fs_sort :: "(key \<times> node) list \<Rightarrow> fs" where
  "fs_sort files =
     \<lparr>entries = [([''src''], Dir), ([''root''], Dir), ([''root'', ''2020''], Dir),
                 ([''root'', ''2020'', ''05''], Dir), ([''root'', ''2020'', ''05'', ''17''], Dir)] @ files,
      inodes = (\<lambda>i. if i = 9 then photo ''0999:05:17 10:00:00'' else photo ''2020:05:17 10:00:00''),
      cwd = ''/'', ro_dirs = [], dir_mtime = (\<lambda>k. None)\<rparr>"




definition fs_old :: fs where
  "fs_old = fs_sort [([''src'', ''new.jpg''], File 1), ([''src'', ''old.jpg''], File 9)]"












text \<open>
  Claim C4 fails for a capture date whose year is below 1000: the year folder is named by
  \<^verbatim>\<open>str(photo_date.year)\<close>, which does not pad, so the file with EXIF date
  \<open>0999:05:17 10:00:00\<close> is sorted under \<open>/root/999/05/17\<close>, a three-digit year folder; the
  month and day folders are padded (\<^verbatim>\<open>strftime\<close>).  The file with EXIF date
  \<open>2020:05:17 10:00:00\<close> is sorted under \<open>/root/2020/05/17\<close>.
\<close>

theorem sort_photos_year_below_1000:
  "get_photo_date fs_old ''/src/old.jpg''
     = Some \<lparr>year = 999, month = 5, day = 17, hour = 10, minute = 0, second = 0\<rparr>
   \<and> get_photo_date fs_old ''/src/new.jpg'' = Some date_2020_05_17
   \<and> outcomes (sort_photos fs_old [''/src/new.jpg'', ''/src/old.jpg''] ''/root'')
       = [(''/src/new.jpg'', Moved_to ''/root/2020/05/17/new.jpg''),
          (''/src/old.jpg'', Moved_to ''/root/999/05/17/old.jpg'')]
   \<and> lookup (sort_fs (sort_photos fs_old [''/src/new.jpg'', ''/src/old.jpg''] ''/root''))
        ''/root/999/05/17/old.jpg'' = Some (File 9)
   \<and> lookup (sort_fs (sort_photos fs_old [''/src/new.jpg'', ''/src/old.jpg''] ''/root''))
        ''/root/0999/05/17/old.jpg'' = None"
  by code_simp

(*PROPS*)

end
